theory Spec2Isabelle
  imports Main "HOL-Library.Word"
begin

section \<open>The event primitive of BsEvent.h\<close>

text \<open>
  The connection records of an event live in an explicit store: an address is a natural
  number, a pointer is an \<open>addr option\<close> with \<open>None\<close> for \<open>nullptr\<close>.  The
  store is total; \<open>allocated\<close> counts the records obtained from \<open>bs_new\<close>, so the
  next fresh address is \<open>allocated\<close> itself.
\<close>

type_synonym addr = nat
type_synonym hid = nat

text \<open>
  A callback is a \<open>std::function\<close>.  Its model is a label, written to the trace
  \<open>invoked\<close> when the callback runs, and the registry operations the callback performs
  on the event it is subscribed to, through handle variables named by \<open>hid\<close>:
  \<open>h = event.connect(f)\<close> into a handle variable, \<open>h.disconnect()\<close>, the end of the
  life of \<open>h\<close>, and \<open>event.clear()\<close>.  A callback of the model does not trigger the
  event again.  The mutex is left out: every operation runs from its first statement to its
  last with no other in between.
\<close>

datatype action =
    Connect hid "callback option"
  | Disconnect hid
  | Destroy hid
  | Clear
and callback = Callback nat "action list"

text \<open>
  \<open>BaseConnectionData\<close> together with the \<open>func\<close> member of
  \<open>TEvent::ConnectionData\<close>; the field \<open>next\<close> is \<open>nxt\<close> here, and the
  \<open>UINT32\<close> count wraps as a 32-bit word does.
\<close>

record ConnectionData =
  prev :: "addr option"
  nxt :: "addr option"
  isActive :: bool
  handleLinks :: "32 word"
  func :: "callback option"

text \<open>
  \<open>EventInternalData\<close> (\<open>mConnections\<close>, \<open>mFreeConnections\<close>) with the store of its
  records, the handle variables of the client (\<open>HEvent::mConnection\<close> of each; there is
  one event, so \<open>mEventData\<close> is that event exactly when \<open>mConnection\<close> is set), and
  the trace of invoked callbacks.
\<close>

record EventState =
  heap :: "addr \<Rightarrow> ConnectionData"
  allocated :: nat
  mConnections :: "addr option"
  mFreeConnections :: "addr option"
  handles :: "hid \<Rightarrow> addr option"
  invoked :: "nat list"

definition upd :: "addr \<Rightarrow> (ConnectionData \<Rightarrow> ConnectionData) \<Rightarrow> EventState \<Rightarrow> EventState" where
  "upd c f s = s\<lparr>heap := (heap s)(c := f (heap s c))\<rparr>"

text \<open>The constructor \<open>BaseConnectionData()\<close>; \<open>func\<close> is default-constructed, empty.\<close>

definition ConnectionData_ctor :: ConnectionData where
  "ConnectionData_ctor =
     \<lparr>prev = None, nxt = None, isActive = True, handleLinks = 0, func = None\<rparr>"

text \<open>\<open>TEvent()\<close>: both lists empty, nothing allocated, no handle variable set.\<close>

definition TEvent_ctor :: EventState where
  "TEvent_ctor =
     \<lparr>heap = (\<lambda>_. ConnectionData_ctor), allocated = 0, mConnections = None,
      mFreeConnections = None, handles = (\<lambda>_. None), invoked = []\<rparr>"

text \<open>\<open>ConnectionData::deactivate\<close>: \<open>func = nullptr\<close>, then the base's \<open>isActive = false\<close>.\<close>

definition deactivate :: "addr \<Rightarrow> EventState \<Rightarrow> EventState" where
  "deactivate c s = upd c (\<lambda>r. r\<lparr>isActive := False\<rparr>) (upd c (\<lambda>r. r\<lparr>func := None\<rparr>) s)"

text \<open>
  \<open>EventInternalData::free\<close>, statement by statement.  The destructor call at its end
  changes no field of the model; what it asserts is \<open>dtor_assert\<close>.
\<close>

definition free :: "addr \<Rightarrow> EventState \<Rightarrow> EventState" where
  "free conn s0 =
     (let s1 = (case prev (heap s0 conn) of
                  Some p \<Rightarrow> upd p (\<lambda>r. r\<lparr>nxt := nxt (heap s0 conn)\<rparr>) s0
                | None \<Rightarrow> s0\<lparr>mConnections := nxt (heap s0 conn)\<rparr>);
          s2 = (case nxt (heap s1 conn) of
                  Some n \<Rightarrow> upd n (\<lambda>r. r\<lparr>prev := prev (heap s1 conn)\<rparr>) s1
                | None \<Rightarrow> s1);
          s3 = upd conn (\<lambda>r. r\<lparr>nxt := None\<rparr>) (upd conn (\<lambda>r. r\<lparr>prev := None\<rparr>) s2);
          s4 = (case mFreeConnections s3 of
                  Some f \<Rightarrow> upd f (\<lambda>r. r\<lparr>prev := Some conn\<rparr>)
                              (upd conn (\<lambda>r. r\<lparr>nxt := Some f\<rparr>) s3)
                | None \<Rightarrow> s3)
      in s4\<lparr>mFreeConnections := Some conn\<rparr>)"

definition dtor_assert :: "addr \<Rightarrow> EventState \<Rightarrow> bool" where
  "dtor_assert c s \<longleftrightarrow> handleLinks (heap s c) = 0 \<and> \<not> isActive (heap s c)"

text \<open>\<open>EventInternalData::disconnect\<close>.\<close>

definition disconnect :: "addr \<Rightarrow> EventState \<Rightarrow> EventState" where
  "disconnect conn s0 =
     (let s1 = deactivate conn s0;
          s2 = upd conn (\<lambda>r. r\<lparr>handleLinks := handleLinks r - 1\<rparr>) s1
      in if handleLinks (heap s2 conn) = 0 then free conn s2 else s2)"

text \<open>\<open>EventInternalData::freeHandle\<close>.\<close>

definition freeHandle :: "addr \<Rightarrow> EventState \<Rightarrow> EventState" where
  "freeHandle conn s0 =
     (let s1 = upd conn (\<lambda>r. r\<lparr>handleLinks := handleLinks r - 1\<rparr>) s0
      in if handleLinks (heap s1 conn) = 0 \<and> \<not> isActive (heap s1 conn)
         then free conn s1 else s1)"

text \<open>
  \<open>EventInternalData::clear\<close>.  The loop follows \<open>next\<close> pointers in the store, so it
  is a partial function: \<open>None\<close> is the loop that does not end.
\<close>

partial_function (option) clear_loop :: "addr option \<Rightarrow> EventState \<Rightarrow> EventState option" where
  "clear_loop conn s =
     (case conn of
        None \<Rightarrow> Some s
      | Some c \<Rightarrow>
          clear_loop (nxt (heap s c))
            (if handleLinks (heap (deactivate c s) c) = 0
             then free c (deactivate c s) else deactivate c s))"

declare clear_loop.simps [code]

definition clear :: "EventState \<Rightarrow> EventState option" where
  "clear s = clear_loop (mConnections s) s"

text \<open>
  \<open>TEvent::connect\<close>.  The record comes from the free list when there is one, after
  placement-new of a fresh \<open>ConnectionData\<close> on it, and from \<open>bs_new\<close> otherwise.  The
  returned \<open>HEvent\<close> is constructed in place in the caller's handle (its constructor runs
  once, \<open>handleLinks++\<close>); the result is the record's address.
\<close>

definition connect :: "callback option \<Rightarrow> EventState \<Rightarrow> addr \<times> EventState" where
  "connect f s0 =
     (let (connData, s1) =
            (case mFreeConnections s0 of
               Some c \<Rightarrow>
                 (let sa = s0\<lparr>mFreeConnections := nxt (heap s0 c)\<rparr>;
                      sb = upd c (\<lambda>_. ConnectionData_ctor) sa;
                      sc = (case nxt (heap sb c) of
                              Some n \<Rightarrow> upd n (\<lambda>r. r\<lparr>prev := None\<rparr>) sb
                            | None \<Rightarrow> sb);
                      sd = upd c (\<lambda>r. r\<lparr>isActive := True\<rparr>) sc
                  in (c, sd))
             | None \<Rightarrow>
                 (allocated s0,
                  (upd (allocated s0) (\<lambda>_. ConnectionData_ctor) s0)
                    \<lparr>allocated := Suc (allocated s0)\<rparr>));
          s2 = upd connData (\<lambda>r. r\<lparr>nxt := mConnections s1\<rparr>) s1;
          s3 = (case mConnections s2 of
                  Some m \<Rightarrow> upd m (\<lambda>r. r\<lparr>prev := Some connData\<rparr>) s2
                | None \<Rightarrow> s2);
          s4 = s3\<lparr>mConnections := Some connData\<rparr>;
          s5 = upd connData (\<lambda>r. r\<lparr>func := f\<rparr>) s4;
          s6 = upd connData (\<lambda>r. r\<lparr>handleLinks := handleLinks r + 1\<rparr>) s5
      in (connData, s6))"

text \<open>\<open>TEvent::empty\<close>.\<close>

definition TEvent_empty :: "EventState \<Rightarrow> bool" where
  "TEvent_empty s \<longleftrightarrow> mConnections s = None"

subsection \<open>Handles\<close>

text \<open>A handle variable \<open>h\<close> initialised with the result of \<open>connect\<close>.\<close>

definition HEvent_connect :: "hid \<Rightarrow> callback option \<Rightarrow> EventState \<Rightarrow> EventState" where
  "HEvent_connect h f s =
     (let (c, s') = connect f s in s'\<lparr>handles := (handles s')(h := Some c)\<rparr>)"

text \<open>\<open>HEvent::disconnect\<close>.\<close>

definition HEvent_disconnect :: "hid \<Rightarrow> EventState \<Rightarrow> EventState" where
  "HEvent_disconnect h s =
     (case handles s h of
        Some c \<Rightarrow> (disconnect c s)\<lparr>handles := (handles s)(h := None)\<rparr>
      | None \<Rightarrow> s)"

text \<open>\<open>~HEvent\<close>; the variable is gone afterwards, its slot is unset.\<close>

definition HEvent_dtor :: "hid \<Rightarrow> EventState \<Rightarrow> EventState" where
  "HEvent_dtor h s =
     (case handles s h of
        Some c \<Rightarrow> (freeHandle c s)\<lparr>handles := (handles s)(h := None)\<rparr>
      | None \<Rightarrow> s)"

text \<open>\<open>HEvent::operator=\<close>: \<open>lhs = rhs\<close>.\<close>

definition HEvent_assign :: "hid \<Rightarrow> hid \<Rightarrow> EventState \<Rightarrow> EventState" where
  "HEvent_assign lhs rhs s0 =
     (let s1 = s0\<lparr>handles := (handles s0)(lhs := handles s0 rhs)\<rparr>
      in case handles s1 lhs of
           Some c \<Rightarrow> upd c (\<lambda>r. r\<lparr>handleLinks := handleLinks r + 1\<rparr>) s1
         | None \<Rightarrow> s1)"

text \<open>The conversion of a handle to bool.\<close>

definition HEvent_bool :: "hid \<Rightarrow> EventState \<Rightarrow> bool" where
  "HEvent_bool h s \<longleftrightarrow> handles s h \<noteq> None"

subsection \<open>Callbacks and the trigger\<close>

fun exec_action :: "action \<Rightarrow> EventState \<Rightarrow> EventState option" where
  "exec_action (Connect h f) s = Some (HEvent_connect h f s)"
| "exec_action (Disconnect h) s = Some (HEvent_disconnect h s)"
| "exec_action (Destroy h) s = Some (HEvent_dtor h s)"
| "exec_action Clear s = clear s"

fun exec_actions :: "action list \<Rightarrow> EventState \<Rightarrow> EventState option" where
  "exec_actions [] s = Some s"
| "exec_actions (a # as) s =
     (case exec_action a s of None \<Rightarrow> None | Some s' \<Rightarrow> exec_actions as s')"

fun invoke :: "callback \<Rightarrow> EventState \<Rightarrow> EventState option" where
  "invoke (Callback i acts) s = exec_actions acts (s\<lparr>invoked := invoked s @ [i]\<rparr>)"

text \<open>
  \<open>TEvent::operator()\<close>: \<open>next\<close> is read before the callback runs, and the loop goes on
  from it in the store the callback leaves.
\<close>

partial_function (option) trigger_loop :: "addr option \<Rightarrow> EventState \<Rightarrow> EventState option" where
  "trigger_loop conn s =
     (case conn of
        None \<Rightarrow> Some s
      | Some c \<Rightarrow>
          (case (case func (heap s c) of
                   Some cb \<Rightarrow> invoke cb s
                 | None \<Rightarrow> Some s) of
             None \<Rightarrow> None
           | Some s' \<Rightarrow> trigger_loop (nxt (heap s c)) s'))"

declare trigger_loop.simps [code]

definition trigger :: "EventState \<Rightarrow> EventState option" where
  "trigger s = trigger_loop (mConnections s) s"

subsection \<open>Concrete scenarios\<close>

text \<open>
  Two subscriptions with labels 1 and 2, held by the handle variables 0 and 1; their
  records are at the addresses 0 and 1.
\<close>

definition two_subscriptions :: EventState where
  "two_subscriptions =
     HEvent_connect 1 (Some (Callback 2 [])) (HEvent_connect 0 (Some (Callback 1 [])) TEvent_ctor)"

text \<open>
  A subscription labelled 2 held by handle 0, then one labelled 1 whose callback
  disconnects handle 0 and connects a new subscription labelled 3 into handle 2.
\<close>

definition swap_next :: EventState where
  "swap_next =
     HEvent_connect 1
       (Some (Callback 1 [Disconnect 0, Connect 2 (Some (Callback 3 []))]))
       (HEvent_connect 0 (Some (Callback 2 [])) TEvent_ctor)"

text \<open>
  Three subscriptions, handle \<open>i\<close> on record \<open>i\<close>, with labels 1, 2 and 3 in the
  order of their connection; the callback of the newest disconnects the handle of the
  middle one, the other two callbacks do nothing.
\<close>

definition skip_state :: EventState where
  "skip_state =
     HEvent_connect 2 (Some (Callback 3 [Disconnect 1]))
       (HEvent_connect 1 (Some (Callback 2 []))
          (HEvent_connect 0 (Some (Callback 1 [])) TEvent_ctor))"

subsection \<open>The two lists as seen from outside\<close>

text \<open>
  \<open>seg h p as q\<close>: following \<open>next\<close> from the pointer \<open>p\<close> visits exactly the
  records \<open>as\<close> and ends in \<open>q\<close>.  \<open>prevs h p as\<close>: the \<open>prev\<close> pointer of
  each record of \<open>as\<close> is its predecessor, \<open>p\<close> for the first.
\<close>

fun seg :: "(addr \<Rightarrow> ConnectionData) \<Rightarrow> addr option \<Rightarrow> addr list \<Rightarrow> addr option \<Rightarrow> bool" where
  "seg h p [] q = (p = q)"
| "seg h p (a # as) q = (p = Some a \<and> seg h (nxt (h a)) as q)"

fun prevs :: "(addr \<Rightarrow> ConnectionData) \<Rightarrow> addr option \<Rightarrow> addr list \<Rightarrow> bool" where
  "prevs h p [] = True"
| "prevs h p (a # as) = (prev (h a) = p \<and> prevs h (Some a) as)"

fun hdp :: "addr list \<Rightarrow> addr option" where
  "hdp [] = None"
| "hdp (a # as) = Some a"

text \<open>
  The shape of a registry whose active list is \<open>as\<close> and whose free list is \<open>fs\<close>:
  the active list is doubly linked from \<open>mConnections\<close>, the free list is linked by
  \<open>next\<close> from \<open>mFreeConnections\<close> (the code never reads \<open>prev\<close> there), no
  record is in both or twice in one, and all of them were allocated.
\<close>

definition lists_ok :: "EventState \<Rightarrow> addr list \<Rightarrow> addr list \<Rightarrow> bool" where
  "lists_ok s as fs \<longleftrightarrow>
     seg (heap s) (mConnections s) as None \<and> prevs (heap s) None as \<and>
     seg (heap s) (mFreeConnections s) fs None \<and>
     distinct (as @ fs) \<and>
     (\<forall>a \<in> set (as @ fs). a < allocated s)"

text \<open>
  The records: one of the free list has no handle, is inactive and has no callback (what
  the destructor asserts, see \<open>dtor_assert\<close>); an inactive one of the active list has
  no callback and is still counted by a handle.
\<close>

definition recs_ok :: "EventState \<Rightarrow> addr list \<Rightarrow> addr list \<Rightarrow> bool" where
  "recs_ok s as fs \<longleftrightarrow>
     (\<forall>a \<in> set fs. dtor_assert a s \<and> func (heap s a) = None) \<and>
     (\<forall>a \<in> set as. \<not> isActive (heap s a) \<longrightarrow>
          handleLinks (heap s a) \<noteq> 0 \<and> func (heap s a) = None)"

definition reg_inv :: "EventState \<Rightarrow> addr list \<Rightarrow> addr list \<Rightarrow> bool" where
  "reg_inv s as fs \<longleftrightarrow> lists_ok s as fs \<and> recs_ok s as fs"

text \<open>
  The handle variables: each one that is set refers to a record of the active list that
  counts at least one handle, and no two refer to the same record (no handle is a copy).
\<close>

definition hnd_inv :: "EventState \<Rightarrow> addr list \<Rightarrow> bool" where
  "hnd_inv s as \<longleftrightarrow>
     (\<forall>h c. handles s h = Some c \<longrightarrow> c \<in> set as \<and> handleLinks (heap s c) \<noteq> 0) \<and>
     (\<forall>h h' c. handles s h = Some c \<longrightarrow> handles s h' = Some c \<longrightarrow> h = h')"

text \<open>The record that the next \<open>connect\<close> takes: the head of the free list, or a new one.\<close>

definition new_record :: "EventState \<Rightarrow> addr list \<Rightarrow> addr" where
  "new_record s fs = (case fs of [] \<Rightarrow> allocated s | c # _ \<Rightarrow> c)"

subsection \<open>Traces\<close>

fun label :: "callback \<Rightarrow> nat" where
  "label (Callback i acts) = i"

fun actions :: "callback \<Rightarrow> action list" where
  "actions (Callback i acts) = acts"

fun cb_labels :: "callback option list \<Rightarrow> nat list" where
  "cb_labels [] = []"
| "cb_labels (None # fs) = cb_labels fs"
| "cb_labels (Some cb # fs) = label cb # cb_labels fs"

definition labels :: "EventState \<Rightarrow> addr list \<Rightarrow> nat list" where
  "labels s as = cb_labels (map (\<lambda>a. func (heap s a)) as)"

fun quiet :: "callback option \<Rightarrow> bool" where
  "quiet None = True"
| "quiet (Some cb) = (actions cb = [])"

fun connect_all :: "callback option list \<Rightarrow> EventState \<Rightarrow> EventState" where
  "connect_all [] s = s"
| "connect_all (f # fs) s = connect_all fs (snd (connect f s))"

text \<open>The records of a list that a \<open>clear\<close> keeps linked, and those it frees.\<close>

definition kept :: "EventState \<Rightarrow> addr list \<Rightarrow> addr list" where
  "kept s as = filter (\<lambda>a. handleLinks (heap s a) \<noteq> 0) as"

definition dropped :: "EventState \<Rightarrow> addr list \<Rightarrow> addr list" where
  "dropped s as = filter (\<lambda>a. handleLinks (heap s a) = 0) as"

text \<open>
  \<open>two_subscriptions\<close> after the handle of the newer one was destroyed, and a single
  subscription held by handle 0.
\<close>

definition one_dropped :: EventState where
  "one_dropped = HEvent_dtor 1 two_subscriptions"

definition one_subscription :: EventState where
  "one_subscription = HEvent_connect 0 (Some (Callback 1 [])) TEvent_ctor"

text \<open>\<open>two_subscriptions\<close> after \<open>handle 2 = handle 1\<close>: record 1 counts two handles.\<close>

definition copied_handle :: EventState where
  "copied_handle = HEvent_assign 2 1 two_subscriptions"

text \<open>\<open>EventInternalData::disconnect\<close> on each record of a list, in the order of the list.\<close>

fun disconnect_all :: "addr list \<Rightarrow> EventState \<Rightarrow> EventState" where
  "disconnect_all [] s = s"
| "disconnect_all (c # cs) s = disconnect_all cs (disconnect c s)"

subsection \<open>Sequences of operations\<close>

text \<open>
  What a client does to an event: one of the registry operations a callback can also
  perform, or a trigger.  \<open>state_inv\<close> is the invariant of the whole state.
\<close>

datatype operation = Do action | Trigger

fun run_op :: "operation \<Rightarrow> EventState \<Rightarrow> EventState option" where
  "run_op (Do a) s = exec_action a s"
| "run_op Trigger s = trigger s"

fun run :: "operation list \<Rightarrow> EventState \<Rightarrow> EventState option" where
  "run [] s = Some s"
| "run (x # xs) s = (case run_op x s of None \<Rightarrow> None | Some s' \<Rightarrow> run xs s')"

text \<open>Every record obtained from \<open>bs_new\<close> is on one of the two lists.\<close>

definition covered :: "EventState \<Rightarrow> addr list \<Rightarrow> addr list \<Rightarrow> bool" where
  "covered s as fs \<longleftrightarrow> (\<forall>a. a < allocated s \<longrightarrow> a \<in> set as \<or> a \<in> set fs)"

definition state_inv :: "EventState \<Rightarrow> bool" where
  "state_inv s \<longleftrightarrow> (\<exists>as fs. reg_inv s as fs \<and> hnd_inv s as \<and> covered s as fs)"

text \<open>
  What the invariant says about records without a handle: the two lists are well formed
  and hold every allocated record; a record of the active list is active or counted by
  a handle; a record of the free list is inactive and counted by none; and an allocated
  record that is inactive and counted by no handle is on the free list.
\<close>

definition settled :: "EventState \<Rightarrow> bool" where
  "settled s \<longleftrightarrow>
     (\<exists>as fs. lists_ok s as fs \<and> hnd_inv s as \<and>
        (\<forall>a \<in> set as. isActive (heap s a) \<or> handleLinks (heap s a) \<noteq> 0) \<and>
        (\<forall>a \<in> set fs. handleLinks (heap s a) = 0 \<and> \<not> isActive (heap s a)) \<and>
        (\<forall>a. a < allocated s \<longrightarrow> a \<in> set as \<or> a \<in> set fs) \<and>
        (\<forall>a. a < allocated s \<longrightarrow>
           handleLinks (heap s a) = 0 \<and> \<not> isActive (heap s a) \<longrightarrow>
           a \<in> set fs \<and> a \<notin> set as))"

text \<open>
  The loop of \<open>TEvent::operator()\<close> stopped after \<open>n\<close> iterations: the pointer
  \<open>conn\<close> and the state at that moment.  It is the body of \<open>trigger_loop\<close>, and
  the pointer \<open>None\<close> is the loop that has ended.
\<close>

fun walk_steps :: "nat \<Rightarrow> addr option \<Rightarrow> EventState \<Rightarrow> (addr option \<times> EventState) option" where
  "walk_steps 0 conn s = Some (conn, s)"
| "walk_steps (Suc n) conn s =
     (case conn of
        None \<Rightarrow> Some (None, s)
      | Some c \<Rightarrow>
          (case (case func (heap s c) of
                   Some cb \<Rightarrow> invoke cb s
                 | None \<Rightarrow> Some s) of
             None \<Rightarrow> None
           | Some s' \<Rightarrow> walk_steps n (nxt (heap s c)) s'))"

text \<open>A session that connects, triggers, releases and clears, with callbacks that do the same.\<close>

definition busy_session :: "operation list" where
  "busy_session =
     [Do (Connect 0 (Some (Callback 1 [Disconnect 0]))),
      Do (Connect 1 (Some (Callback 2 [Connect 2 (Some (Callback 3 [])), Destroy 2]))),
      Do (Connect 3 (Some (Callback 4 [Disconnect 1, Connect 4 None]))),
      Trigger,
      Do (Destroy 3),
      Do Clear,
      Trigger,
      Do (Connect 5 (Some (Callback 6 [Clear])))]"

subsection \<open>Callbacks that disconnect what the walk has passed\<close>

text \<open>
  \<open>only_disconnects hs vs acts\<close>: every action of \<open>acts\<close> is a \<open>disconnect()\<close> on
  a handle that is unset or refers to a record of \<open>vs\<close>.  \<open>tidy s vs as\<close>: walking
  \<open>as\<close> after \<open>vs\<close>, the callback of each record only disconnects handles of the
  record itself or of records the walk has visited before it.
\<close>

fun only_disconnects :: "(hid \<Rightarrow> addr option) \<Rightarrow> addr list \<Rightarrow> action list \<Rightarrow> bool" where
  "only_disconnects hs vs [] = True"
| "only_disconnects hs vs (Disconnect h # acts) =
     ((case hs h of None \<Rightarrow> True | Some c \<Rightarrow> c \<in> set vs) \<and> only_disconnects hs vs acts)"
| "only_disconnects hs vs (_ # acts) = False"

fun tidy :: "EventState \<Rightarrow> addr list \<Rightarrow> addr list \<Rightarrow> bool" where
  "tidy s vs [] = True"
| "tidy s vs (a # as) =
     ((case func (heap s a) of
         None \<Rightarrow> True
       | Some cb \<Rightarrow> only_disconnects (handles s) (a # vs) (actions cb)) \<and>
      tidy s (a # vs) as)"

text \<open>
  Three subscriptions, handle \<open>i\<close> on record \<open>i\<close>: the newest (label 3) does nothing,
  the middle one (label 2) disconnects the newest and itself, the oldest (label 1)
  disconnects itself.
\<close>

definition self_disconnecting :: EventState where
  "self_disconnecting =
     HEvent_connect 2 (Some (Callback 3 []))
       (HEvent_connect 1 (Some (Callback 2 [Disconnect 2, Disconnect 1]))
          (HEvent_connect 0 (Some (Callback 1 [Disconnect 0])) TEvent_ctor))"

subsection \<open>Callbacks that only connect\<close>

text \<open>
  \<open>growing s as\<close>: the callback of each record of \<open>as\<close> does nothing but connect new
  subscriptions.
\<close>

fun only_connects :: "action list \<Rightarrow> bool" where
  "only_connects [] = True"
| "only_connects (Connect h f # acts) = only_connects acts"
| "only_connects (_ # acts) = False"

definition growing :: "EventState \<Rightarrow> addr list \<Rightarrow> bool" where
  "growing s as \<longleftrightarrow>
     (\<forall>a \<in> set as. case func (heap s a) of None \<Rightarrow> True | Some cb \<Rightarrow> only_connects (actions cb))"

section \<open>Evaluation rules\<close>

lemma trigger_loop_None: "trigger_loop None s = Some s"
  by (subst trigger_loop.simps) simp

lemma trigger_loop_Some:
  "trigger_loop (Some c) s =
     (case (case func (heap s c) of Some cb \<Rightarrow> invoke cb s | None \<Rightarrow> Some s) of
        None \<Rightarrow> None
      | Some s' \<Rightarrow> trigger_loop (nxt (heap s c)) s')"
  by (subst trigger_loop.simps) simp

lemma clear_loop_None: "clear_loop None s = Some s"
  by (subst clear_loop.simps) simp

lemma clear_loop_Some:
  "clear_loop (Some c) s =
     clear_loop (nxt (heap s c))
       (if handleLinks (heap (deactivate c s) c) = 0
        then free c (deactivate c s) else deactivate c s)"
  by (subst clear_loop.simps) simp

lemmas run_simps =
  trigger_loop_None trigger_loop_Some clear_loop_None clear_loop_Some trigger_def clear_def
  HEvent_connect_def HEvent_disconnect_def HEvent_dtor_def HEvent_assign_def connect_def
  disconnect_def freeHandle_def free_def deactivate_def upd_def TEvent_ctor_def
  ConnectionData_ctor_def Let_def TEvent_empty_def

section \<open>List segments in the store\<close>

lemma seg_upd_notin: "a \<notin> set as \<Longrightarrow> seg (h(a := v)) p as q = seg h p as q"
  by (induction as arbitrary: p) auto

lemma seg_upd_nxt: "nxt v = nxt (h a) \<Longrightarrow> seg (h(a := v)) p as q = seg h p as q"
  by (induction as arbitrary: p) auto

lemma prevs_upd_notin: "a \<notin> set as \<Longrightarrow> prevs (h(a := v)) p as = prevs h p as"
  by (induction as arbitrary: p) auto

lemma prevs_upd_prev: "prev v = prev (h a) \<Longrightarrow> prevs (h(a := v)) p as = prevs h p as"
  by (induction as arbitrary: p) auto

lemma seg_None: "seg h None as q \<longleftrightarrow> as = [] \<and> q = None"
  by (cases as) auto

lemma seg_hdp_None: "seg h p ys None \<Longrightarrow> p = hdp ys"
  by (cases ys) auto

lemma seg_append: "seg h p (xs @ ys) None \<longleftrightarrow> seg h p xs (hdp ys) \<and> seg h (hdp ys) ys None"
  by (induction xs arbitrary: p) (auto dest: seg_hdp_None)

lemma prevs_append: "prevs h p (xs @ ys) \<longleftrightarrow> prevs h p xs \<and> prevs h (if xs = [] then p else Some (last xs)) ys"
  by (induction xs arbitrary: p) auto

lemma seg_hdp: "seg h p as q \<Longrightarrow> as \<noteq> [] \<Longrightarrow> p = hdp as"
  by (cases as) auto

lemma seg_unique: "seg h p as None \<Longrightarrow> seg h p bs None \<Longrightarrow> as = bs"
proof (induction as arbitrary: p bs)
  case Nil then show ?case by (cases bs) auto
next
  case (Cons a as) then show ?case by (cases bs) auto
qed

lemma seg_snoc_nxt: "seg h p (xs @ [a]) q \<Longrightarrow> nxt (h a) = q"
  by (induction xs arbitrary: p) auto


lemma free_lists_ok:
  assumes inv: "lists_ok s as fs" and c: "c \<in> set as"
  shows "lists_ok (free c s) (remove1 c as) (c # fs)"
proof -
  from c obtain xs ys where as: "as = xs @ c # ys" by (auto simp: in_set_conv_decomp)
  from inv have d: "distinct (as @ fs)" by (simp add: lists_ok_def)
  with as have cx: "c \<notin> set xs" "c \<notin> set ys" "c \<notin> set fs" by auto
  have rm: "remove1 c as = xs @ ys" using as cx by (simp add: remove1_append)
  show ?thesis
  proof (cases xs rule: rev_cases)
    case Nil
    show ?thesis
    proof (cases ys)
      case Nil
      with \<open>xs = []\<close> show ?thesis using inv as cx d unfolding rm
        by (cases fs) (auto simp: lists_ok_def free_def upd_def Let_def seg_upd_notin)
    next
      case (Cons y ys')
      with \<open>xs = []\<close> show ?thesis using inv as cx d unfolding rm
        by (cases fs) (auto simp: lists_ok_def free_def upd_def Let_def seg_upd_notin prevs_upd_notin)
    qed
  next
    case (snoc xs' p)
    show ?thesis
    proof (cases ys)
      case Nil
      with snoc show ?thesis using inv as cx d unfolding rm
        by (cases fs) (auto simp: lists_ok_def free_def upd_def Let_def seg_upd_notin prevs_upd_notin seg_append prevs_append)
    next
      case (Cons y ys')
      with snoc show ?thesis using inv as cx d unfolding rm
        by (cases fs) (auto simp: lists_ok_def free_def upd_def Let_def seg_upd_notin prevs_upd_notin seg_append prevs_append)
    qed
  qed
qed

lemma free_fields:
  "func (heap (free c s) a) = func (heap s a)"
  "isActive (heap (free c s) a) = isActive (heap s a)"
  "handleLinks (heap (free c s) a) = handleLinks (heap s a)"
  "handles (free c s) = handles s"
  "invoked (free c s) = invoked s"
  "allocated (free c s) = allocated s"
  by (auto simp: free_def upd_def Let_def split: option.splits)

lemma deactivate_fields:
  "func (heap (deactivate c s) a) = (if a = c then None else func (heap s a))"
  "isActive (heap (deactivate c s) a) = (a \<noteq> c \<and> isActive (heap s a))"
  "handleLinks (heap (deactivate c s) a) = handleLinks (heap s a)"
  "nxt (heap (deactivate c s) a) = nxt (heap s a)"
  "prev (heap (deactivate c s) a) = prev (heap s a)"
  "handles (deactivate c s) = handles s"
  "invoked (deactivate c s) = invoked s"
  "allocated (deactivate c s) = allocated s"
  "mConnections (deactivate c s) = mConnections s"
  "mFreeConnections (deactivate c s) = mFreeConnections s"
  by (auto simp: deactivate_def upd_def)

lemma disconnect_fields:
  "func (heap (disconnect c s) a) = (if a = c then None else func (heap s a))"
  "isActive (heap (disconnect c s) a) = (a \<noteq> c \<and> isActive (heap s a))"
  "handleLinks (heap (disconnect c s) a) = (if a = c then handleLinks (heap s a) - 1 else handleLinks (heap s a))"
  "handles (disconnect c s) = handles s"
  "invoked (disconnect c s) = invoked s"
  "allocated (disconnect c s) = allocated s"
  by (auto simp: disconnect_def Let_def free_fields deactivate_fields upd_def)

lemma freeHandle_fields:
  "func (heap (freeHandle c s) a) = func (heap s a)"
  "isActive (heap (freeHandle c s) a) = isActive (heap s a)"
  "handleLinks (heap (freeHandle c s) a) = (if a = c then handleLinks (heap s a) - 1 else handleLinks (heap s a))"
  "handles (freeHandle c s) = handles s"
  "invoked (freeHandle c s) = invoked s"
  "allocated (freeHandle c s) = allocated s"
  by (auto simp: freeHandle_def Let_def free_fields upd_def)

lemma lists_ok_cong:
  assumes "lists_ok s as fs"
    and "mConnections t = mConnections s" "mFreeConnections t = mFreeConnections s"
    and "allocated t = allocated s"
    and "\<And>a. nxt (heap t a) = nxt (heap s a)" "\<And>a. prev (heap t a) = prev (heap s a)"
  shows "lists_ok t as fs"
proof -
  have sg: "seg (heap t) p xs q = seg (heap s) p xs q" for p xs q
    by (induction xs arbitrary: p) (auto simp: assms(5))
  have pv: "prevs (heap t) p xs = prevs (heap s) p xs" for p xs
    by (induction xs arbitrary: p) (auto simp: assms(6))
  show ?thesis using assms(1-4) unfolding lists_ok_def sg pv by auto
qed

lemma disconnect_lists_ok:
  assumes inv: "lists_ok s as fs" and c: "c \<in> set as"
  shows "lists_ok (disconnect c s)
           (if handleLinks (heap s c) = 1 then remove1 c as else as)
           (if handleLinks (heap s c) = 1 then c # fs else fs)"
proof -
  let ?s2 = "upd c (\<lambda>r. r\<lparr>handleLinks := handleLinks r - 1\<rparr>) (deactivate c s)"
  have hl: "handleLinks (heap ?s2 c) = 0 \<longleftrightarrow> handleLinks (heap s c) = 1"
    by (simp add: upd_def deactivate_fields)
  have s2: "lists_ok ?s2 as fs"
    by (rule lists_ok_cong[OF inv]) (auto simp: upd_def deactivate_def)
  show ?thesis
    using free_lists_ok[OF s2 c] s2 hl by (simp add: disconnect_def Let_def)
qed

lemma freeHandle_lists_ok:
  assumes inv: "lists_ok s as fs" and c: "c \<in> set as"
  shows "lists_ok (freeHandle c s)
           (if handleLinks (heap s c) = 1 \<and> \<not> isActive (heap s c) then remove1 c as else as)
           (if handleLinks (heap s c) = 1 \<and> \<not> isActive (heap s c) then c # fs else fs)"
proof -
  let ?s1 = "upd c (\<lambda>r. r\<lparr>handleLinks := handleLinks r - 1\<rparr>) s"
  have hl: "handleLinks (heap ?s1 c) = 0 \<longleftrightarrow> handleLinks (heap s c) = 1"
    by (simp add: upd_def)
  have ia: "isActive (heap ?s1 c) = isActive (heap s c)" by (simp add: upd_def)
  have s1: "lists_ok ?s1 as fs"
    by (rule lists_ok_cong[OF inv]) (auto simp: upd_def)
  show ?thesis
    using free_lists_ok[OF s1 c] s1 hl ia by (auto simp add: freeHandle_def Let_def)
qed

lemma disconnect_recs_ok:
  assumes "recs_ok s as fs" "c \<in> set as" "c \<notin> set fs" "distinct as"
  shows "recs_ok (disconnect c s)
           (if handleLinks (heap s c) = 1 then remove1 c as else as)
           (if handleLinks (heap s c) = 1 then c # fs else fs)"
  using assms by (auto simp: recs_ok_def dtor_assert_def disconnect_fields dest: notin_set_remove1)

lemma freeHandle_recs_ok:
  assumes "recs_ok s as fs" "c \<in> set as" "c \<notin> set fs" "distinct as"
  shows "recs_ok (freeHandle c s)
           (if handleLinks (heap s c) = 1 \<and> \<not> isActive (heap s c) then remove1 c as else as)
           (if handleLinks (heap s c) = 1 \<and> \<not> isActive (heap s c) then c # fs else fs)"
  using assms by (auto simp: recs_ok_def dtor_assert_def freeHandle_fields dest: notin_set_remove1)


lemma disconnect_reg_inv:
  assumes "reg_inv s as fs" "c \<in> set as"
  shows "reg_inv (disconnect c s)
           (if handleLinks (heap s c) = 1 then remove1 c as else as)
           (if handleLinks (heap s c) = 1 then c # fs else fs)"
proof -
  have "c \<notin> set fs" "distinct as" using assms by (auto simp: reg_inv_def lists_ok_def)
  then show ?thesis
    using assms disconnect_lists_ok[of s as fs c] disconnect_recs_ok[of s as fs c]
    by (simp add: reg_inv_def)
qed

lemma freeHandle_reg_inv:
  assumes "reg_inv s as fs" "c \<in> set as"
  shows "reg_inv (freeHandle c s)
           (if handleLinks (heap s c) = 1 \<and> \<not> isActive (heap s c) then remove1 c as else as)
           (if handleLinks (heap s c) = 1 \<and> \<not> isActive (heap s c) then c # fs else fs)"
proof -
  have "c \<notin> set fs" "distinct as" using assms by (auto simp: reg_inv_def lists_ok_def)
  then show ?thesis
    using assms freeHandle_lists_ok[of s as fs c] freeHandle_recs_ok[of s as fs c]
    by (simp add: reg_inv_def)
qed

lemma connect_fst:
  assumes "lists_ok s as fs"
  shows "fst (connect f s) = new_record s fs"
  using assms by (cases fs) (auto simp: connect_def Let_def lists_ok_def new_record_def ConnectionData_ctor_def upd_def split: option.splits)

lemma connect_fields:
  assumes "lists_ok s as fs"
  shows "func (heap (snd (connect f s)) a) = (if a = new_record s fs then f else func (heap s a))"
    "isActive (heap (snd (connect f s)) a) = (a = new_record s fs \<or> isActive (heap s a))"
    "handleLinks (heap (snd (connect f s)) a) = (if a = new_record s fs then 1 else handleLinks (heap s a))"
    "handles (snd (connect f s)) = handles s"
    "invoked (snd (connect f s)) = invoked s"
    "allocated (snd (connect f s)) = (if fs = [] then Suc (allocated s) else allocated s)"
    "mConnections (snd (connect f s)) = Some (new_record s fs)"
  using assms by (cases fs; auto simp: connect_def Let_def lists_ok_def new_record_def ConnectionData_ctor_def upd_def split: option.splits)+

lemma connect_lists_ok:
  assumes "lists_ok s as fs"
  shows "lists_ok (snd (connect f s)) (new_record s fs # as) (tl fs)"
proof (cases fs)
  case Nil
  then show ?thesis using assms
    by (cases as) (auto simp: connect_def Let_def lists_ok_def new_record_def ConnectionData_ctor_def upd_def
        seg_upd_notin prevs_upd_notin  split: option.splits)
next
  case (Cons c fs')
  then show ?thesis using assms
    by (cases as) (auto simp: connect_def Let_def lists_ok_def new_record_def ConnectionData_ctor_def upd_def
        seg_upd_notin prevs_upd_notin  split: option.splits)
qed


section \<open>Triggering callbacks that leave the registry alone\<close>

lemma cb_labels_append: "cb_labels (xs @ ys) = cb_labels xs @ cb_labels ys"
  by (induction xs rule: cb_labels.induct) auto

lemma invoke_quiet: "actions cb = [] \<Longrightarrow> invoke cb s = Some (s\<lparr>invoked := invoked s @ [label cb]\<rparr>)"
  by (cases cb) auto

lemma trigger_loop_quiet:
  assumes "seg (heap s) p as None" "\<forall>a \<in> set as. quiet (func (heap s a))"
  shows "trigger_loop p s = Some (s\<lparr>invoked := invoked s @ labels s as\<rparr>)"
  using assms
proof (induction as arbitrary: p s)
  case Nil
  then show ?case by (simp add: trigger_loop_None labels_def)
next
  case (Cons a as)
  then have p: "p = Some a" and sg: "seg (heap s) (nxt (heap s a)) as None" by auto
  show ?case
  proof (cases "func (heap s a)")
    case None
    then show ?thesis using Cons.IH[OF sg] Cons.prems(2) p
      by (simp add: trigger_loop_Some labels_def)
  next
    case (Some cb)
    let ?s1 = "s\<lparr>invoked := invoked s @ [label cb]\<rparr>"
    have q: "actions cb = []" using Cons.prems(2) Some by simp
    have "trigger_loop (nxt (heap s a)) ?s1 = Some (?s1\<lparr>invoked := invoked ?s1 @ labels ?s1 as\<rparr>)"
      using sg Cons.prems(2) by (intro Cons.IH) auto
    then show ?thesis using p Some q
      by (simp add: trigger_loop_Some invoke_quiet labels_def)
  qed
qed

lemma connect_recs_ok:
  assumes "reg_inv s as fs"
  shows "recs_ok (snd (connect f s)) (new_record s fs # as) (tl fs)"
proof -
  have l: "lists_ok s as fs" using assms by (simp add: reg_inv_def)
  have n: "fs \<noteq> [] \<Longrightarrow> new_record s fs \<notin> set (tl fs)" "new_record s fs \<notin> set as"
    using l by (cases fs; auto simp: lists_ok_def new_record_def)+
  show ?thesis using assms n
    by (cases fs) (auto simp: reg_inv_def recs_ok_def dtor_assert_def connect_fields[OF l])
qed

lemma connect_reg_inv:
  assumes "reg_inv s as fs"
  shows "reg_inv (snd (connect f s)) (new_record s fs # as) (tl fs)"
  using assms connect_recs_ok[OF assms] connect_lists_ok[of s as fs f]
  by (simp add: reg_inv_def)

lemma connect_all_reg_inv:
  assumes "reg_inv s as fs"
  shows "\<exists>bs gs. reg_inv (connect_all cbs s) (bs @ as) gs \<and> length bs = length cbs \<and>
           map (\<lambda>a. func (heap (connect_all cbs s) a)) (bs @ as) = rev cbs @ map (\<lambda>a. func (heap s a)) as
           \<and> invoked (connect_all cbs s) = invoked s"
  using assms
proof (induction cbs arbitrary: s as fs)
  case Nil
  then show ?case by (intro exI[of _ "[]"] exI[of _ fs]) auto
next
  case (Cons f cbs)
  let ?s1 = "snd (connect f s)"
  let ?c = "new_record s fs"
  have l: "lists_ok s as fs" using Cons.prems by (simp add: reg_inv_def)
  have r1: "reg_inv ?s1 (?c # as) (tl fs)" by (rule connect_reg_inv[OF Cons.prems])
  from Cons.IH[OF r1] obtain bs gs where
    b: "reg_inv (connect_all cbs ?s1) (bs @ ?c # as) gs" "length bs = length cbs"
    "map (\<lambda>a. func (heap (connect_all cbs ?s1) a)) (bs @ ?c # as) = rev cbs @ map (\<lambda>a. func (heap ?s1 a)) (?c # as)"
    "invoked (connect_all cbs ?s1) = invoked ?s1"
    by blast
  have nc: "?c \<notin> set as" using r1 by (auto simp: reg_inv_def lists_ok_def)
  have m: "map (\<lambda>a. func (heap ?s1 a)) (?c # as) = f # map (\<lambda>a. func (heap s a)) as"
    using nc by (auto simp: connect_fields[OF l])
  show ?case
    using b m by (intro exI[of _ "bs @ [?c]"] exI[of _ gs]) (auto simp: connect_fields[OF l])
qed


lemma cb_labels_rev: "cb_labels (rev xs) = rev (cb_labels xs)"
  by (induction xs rule: cb_labels.induct) (auto simp: cb_labels_append)

lemma TEvent_ctor_reg_inv: "reg_inv TEvent_ctor [] []"
  by (simp add: reg_inv_def lists_ok_def recs_ok_def TEvent_ctor_def)

section \<open>Clearing\<close>

lemma hdp_seg_mid: "seg h p (xs @ r # ys) None \<Longrightarrow> nxt (h r) = hdp ys"
proof (induction xs arbitrary: p)
  case Nil then show ?case by (auto dest: seg_hdp_None)
next
  case (Cons a xs) then show ?case by auto
qed

lemma lists_ok_nxt: "lists_ok s (pre @ r # rs) fs \<Longrightarrow> nxt (heap s r) = hdp rs"
  by (auto simp: lists_ok_def dest: hdp_seg_mid)

lemma clear_loop_lists:
  assumes "lists_ok t (pre @ rs) fs"
  shows "\<exists>t'. clear_loop (hdp rs) t = Some t' \<and>
           lists_ok t' (pre @ filter (\<lambda>a. handleLinks (heap t a) \<noteq> 0) rs)
                       (rev (filter (\<lambda>a. handleLinks (heap t a) = 0) rs) @ fs) \<and>
           (\<forall>a. func (heap t' a) = (if a \<in> set rs then None else func (heap t a))) \<and>
           (\<forall>a. isActive (heap t' a) = (a \<notin> set rs \<and> isActive (heap t a))) \<and>
           (\<forall>a. handleLinks (heap t' a) = handleLinks (heap t a)) \<and>
           handles t' = handles t \<and> invoked t' = invoked t \<and> allocated t' = allocated t"
  using assms
proof (induction rs arbitrary: t pre fs)
  case Nil
  then show ?case by (simp add: clear_loop_None)
next
  case (Cons r rs)
  let ?d = "deactivate r t"
  have nx: "nxt (heap t r) = hdp rs" using Cons.prems by (rule lists_ok_nxt)
  have d: "lists_ok ?d (pre @ r # rs) fs"
    by (rule lists_ok_cong[OF Cons.prems]) (simp_all add: deactivate_fields)
  have dist: "r \<notin> set pre" "r \<notin> set rs" using Cons.prems by (auto simp: lists_ok_def)
  show ?case
  proof (cases "handleLinks (heap t r) = 0")
    case True
    have "lists_ok (free r ?d) (remove1 r (pre @ r # rs)) (r # fs)"
      using d by (rule free_lists_ok) simp
    then have l: "lists_ok (free r ?d) (pre @ rs) (r # fs)"
      using dist by (simp add: remove1_append)
    from Cons.IH[OF l] obtain t' where
      t': "clear_loop (hdp rs) (free r ?d) = Some t'"
      "lists_ok t' (pre @ filter (\<lambda>a. handleLinks (heap (free r ?d) a) \<noteq> 0) rs)
                       (rev (filter (\<lambda>a. handleLinks (heap (free r ?d) a) = 0) rs) @ r # fs)"
      "\<forall>a. func (heap t' a) = (if a \<in> set rs then None else func (heap (free r ?d) a))"
      "\<forall>a. isActive (heap t' a) = (a \<notin> set rs \<and> isActive (heap (free r ?d) a))"
      "\<forall>a. handleLinks (heap t' a) = handleLinks (heap (free r ?d) a)"
      "handles t' = handles (free r ?d)" "invoked t' = invoked (free r ?d)"
      "allocated t' = allocated (free r ?d)"
      by blast
    show ?thesis
      using t' True nx
      by (intro exI[of _ t']) (auto simp: clear_loop_Some free_fields deactivate_fields)
  next
    case False
    have l: "lists_ok ?d ((pre @ [r]) @ rs) fs" using d by simp
    from Cons.IH[OF l] obtain t' where
      t': "clear_loop (hdp rs) ?d = Some t'"
      "lists_ok t' ((pre @ [r]) @ filter (\<lambda>a. handleLinks (heap ?d a) \<noteq> 0) rs)
                       (rev (filter (\<lambda>a. handleLinks (heap ?d a) = 0) rs) @ fs)"
      "\<forall>a. func (heap t' a) = (if a \<in> set rs then None else func (heap ?d a))"
      "\<forall>a. isActive (heap t' a) = (a \<notin> set rs \<and> isActive (heap ?d a))"
      "\<forall>a. handleLinks (heap t' a) = handleLinks (heap ?d a)"
      "handles t' = handles ?d" "invoked t' = invoked ?d"
      "allocated t' = allocated ?d"
      by blast
    show ?thesis
      using t' False nx
      by (intro exI[of _ t']) (auto simp: clear_loop_Some free_fields deactivate_fields)
  qed
qed

lemma clear_reg_inv:
  assumes "reg_inv s as fs"
  shows "\<exists>s'. clear s = Some s' \<and> reg_inv s' (kept s as) (rev (dropped s as) @ fs) \<and>
           (\<forall>a. func (heap s' a) = (if a \<in> set as then None else func (heap s a))) \<and>
           (\<forall>a. isActive (heap s' a) = (a \<notin> set as \<and> isActive (heap s a))) \<and>
           (\<forall>a. handleLinks (heap s' a) = handleLinks (heap s a)) \<and>
           handles s' = handles s \<and> invoked s' = invoked s \<and> allocated s' = allocated s"
proof -
  have l: "lists_ok s ([] @ as) fs" using assms by (simp add: reg_inv_def)
  have p: "mConnections s = hdp as" using assms by (auto simp: reg_inv_def lists_ok_def dest: seg_hdp_None)
  from clear_loop_lists[OF l] obtain t' where
      t': "clear_loop (hdp as) s = Some t'"
      "lists_ok t' ([] @ filter (\<lambda>a. handleLinks (heap s a) \<noteq> 0) as)
                       (rev (filter (\<lambda>a. handleLinks (heap s a) = 0) as) @ fs)"
      "\<forall>a. func (heap t' a) = (if a \<in> set as then None else func (heap s a))"
      "\<forall>a. isActive (heap t' a) = (a \<notin> set as \<and> isActive (heap s a))"
      "\<forall>a. handleLinks (heap t' a) = handleLinks (heap s a)"
      "handles t' = handles s" "invoked t' = invoked s"
      "allocated t' = allocated s"
    by blast
  have "recs_ok t' (kept s as) (rev (dropped s as) @ fs)"
    using assms t'(3-5) by (auto simp: reg_inv_def recs_ok_def dtor_assert_def kept_def dropped_def)
  then show ?thesis using t' p
    by (intro exI[of _ t']) (simp add: clear_def reg_inv_def kept_def dropped_def)
qed

section \<open>Concrete registries\<close>

lemmas inv_defs = reg_inv_def lists_ok_def recs_ok_def dtor_assert_def hnd_inv_def

lemma one_dropped_reg_inv: "reg_inv one_dropped [1, 0] []"
  by (simp add: one_dropped_def two_subscriptions_def run_simps inv_defs)

section \<open>Traces of a well-formed registry\<close>

lemma labels_cong:
  "(\<And>a. a \<in> set as \<Longrightarrow> func (heap t a) = func (heap s a)) \<Longrightarrow> labels t as = labels s as"
  by (simp add: labels_def cong: map_cong)

lemma labels_Cons:
  "labels s (a # as) = (case func (heap s a) of None \<Rightarrow> labels s as | Some cb \<Rightarrow> label cb # labels s as)"
  by (simp add: labels_def split: option.splits)


lemma labels_remove1:
  assumes "distinct as" "func (heap t c) = None" "\<And>a. a \<noteq> c \<Longrightarrow> func (heap t a) = func (heap s a)"
  shows "labels t as = labels s (remove1 c as)"
  using assms(1)
proof (induction as)
  case Nil then show ?case by (simp add: labels_def)
next
  case (Cons a as)
  show ?case
  proof (cases "a = c")
    case True
    then have "c \<notin> set as" using Cons.prems by simp
    then have "labels t as = labels s as" using assms(3) by (intro labels_cong) metis
    then show ?thesis using True assms(2) by (simp add: labels_Cons)
  next
    case False
    then show ?thesis using Cons assms(3)[of a] by (simp add: labels_Cons split: option.splits)
  qed
qed

lemma trigger_quiet:
  assumes "reg_inv s as fs" "\<forall>a \<in> set as. quiet (func (heap s a))"
  shows "trigger s = Some (s\<lparr>invoked := invoked s @ labels s as\<rparr>)"
  using assms trigger_loop_quiet[of s "mConnections s" as]
  by (simp add: trigger_def reg_inv_def lists_ok_def)

section \<open>Disconnecting and reconnecting in bulk\<close>

lemma disconnect_all_reg_inv:
  assumes "reg_inv s as fs" "set ds \<subseteq> set as" "distinct ds"
    "\<forall>a \<in> set ds. handleLinks (heap s a) = 1"
  shows "reg_inv (disconnect_all ds s) (filter (\<lambda>a. a \<notin> set ds) as) (rev ds @ fs) \<and>
         allocated (disconnect_all ds s) = allocated s"
  using assms
proof (induction ds arbitrary: s as fs)
  case Nil
  then show ?case by simp
next
  case (Cons c ds)
  have c: "c \<in> set as" "handleLinks (heap s c) = 1" using Cons.prems by auto
  have d: "distinct as" using Cons.prems(1) by (simp add: inv_defs)
  have r: "reg_inv (disconnect c s) (remove1 c as) (c # fs)"
    using disconnect_reg_inv[OF Cons.prems(1) c(1)] c(2) by simp
  have "reg_inv (disconnect_all ds (disconnect c s))
          (filter (\<lambda>a. a \<notin> set ds) (remove1 c as)) (rev ds @ c # fs) \<and>
        allocated (disconnect_all ds (disconnect c s)) = allocated (disconnect c s)"
    using Cons.prems d by (intro Cons.IH[OF r]) (auto simp: disconnect_fields)
  moreover have "filter (\<lambda>a. a \<notin> set ds) (remove1 c as) = filter (\<lambda>a. a \<notin> set (c # ds)) as"
    using d by (auto simp: distinct_remove1_removeAll removeAll_filter_not_eq intro: filter_cong)
  ultimately show ?case by (simp add: disconnect_fields)
qed

lemma connect_all_recycles:
  assumes "reg_inv s as (gs @ fs)" "length cbs = length gs"
  shows "reg_inv (connect_all cbs s) (rev gs @ as) fs \<and>
         allocated (connect_all cbs s) = allocated s"
  using assms
proof (induction cbs arbitrary: s as gs)
  case Nil
  then show ?case by simp
next
  case (Cons f cbs)
  then obtain g gs' where g: "gs = g # gs'" by (cases gs) auto
  have l: "lists_ok s as (gs @ fs)" using Cons.prems(1) by (simp add: reg_inv_def)
  have r: "reg_inv (snd (connect f s)) (g # as) (gs' @ fs)"
    using connect_reg_inv[OF Cons.prems(1), of f] g by (simp add: new_record_def)
  from Cons.IH[OF r] Cons.prems(2) g show ?case
    by (simp add: connect_fields[OF l])
qed

section \<open>The invariant is kept by every operation\<close>

lemma reg_inv_handles_invoked:
  "reg_inv (s\<lparr>handles := hs\<rparr>) as fs = reg_inv s as fs"
  "reg_inv (s\<lparr>invoked := tr\<rparr>) as fs = reg_inv s as fs"
  by (simp_all add: inv_defs)

lemma hnd_inv_invoked: "hnd_inv (s\<lparr>invoked := tr\<rparr>) as = hnd_inv s as"
  by (simp add: hnd_inv_def)

lemma HEvent_connect_inv:
  assumes "reg_inv s as fs" "hnd_inv s as"
  shows "reg_inv (HEvent_connect h f s) (new_record s fs # as) (tl fs) \<and>
         hnd_inv (HEvent_connect h f s) (new_record s fs # as)"
proof -
  have l: "lists_ok s as fs" using assms(1) by (simp add: reg_inv_def)
  obtain c s' where cs: "connect f s = (c, s')" by (cases "connect f s")
  have c: "c = new_record s fs" and s': "s' = snd (connect f s)"
    using connect_fst[OF l, of f] cs by simp_all
  have u: "HEvent_connect h f s = s'\<lparr>handles := (handles s)(h := Some c)\<rparr>"
    using cs connect_fields(4)[OF l, of f] by (simp add: HEvent_connect_def)
  have n: "c \<notin> set as" using l c by (cases fs) (auto simp: lists_ok_def new_record_def)
  have r: "reg_inv s' (c # as) (tl fs)" using connect_reg_inv[OF assms(1), of f] c s' by simp
  have hl: "handleLinks (heap s' a) = (if a = c then 1 else handleLinks (heap s a))" for a
    using connect_fields(3)[OF l, of f a] c s' by simp
  have "hnd_inv (s'\<lparr>handles := (handles s)(h := Some c)\<rparr>) (c # as)"
    using assms(2) n unfolding hnd_inv_def by (auto simp: hl)
  then show ?thesis using r c unfolding u by (simp add: reg_inv_handles_invoked)
qed

lemma HEvent_disconnect_inv:
  assumes "reg_inv s as fs" "hnd_inv s as" "handles s h = Some c"
  shows "reg_inv (HEvent_disconnect h s)
           (if handleLinks (heap s c) = 1 then remove1 c as else as)
           (if handleLinks (heap s c) = 1 then c # fs else fs) \<and>
         hnd_inv (HEvent_disconnect h s) (if handleLinks (heap s c) = 1 then remove1 c as else as)"
proof -
  have c: "c \<in> set as" using assms(2,3) by (auto simp: hnd_inv_def)
  have u: "HEvent_disconnect h s = (disconnect c s)\<lparr>handles := (handles s)(h := None)\<rparr>"
    using assms(3) by (simp add: HEvent_disconnect_def)
  have "hnd_inv ((disconnect c s)\<lparr>handles := (handles s)(h := None)\<rparr>)
          (if handleLinks (heap s c) = 1 then remove1 c as else as)"
    using assms(2,3) unfolding hnd_inv_def
    by (auto simp: disconnect_fields)
  then show ?thesis
    using disconnect_reg_inv[OF assms(1) c] unfolding u by (simp add: reg_inv_handles_invoked)
qed

lemma HEvent_dtor_inv:
  assumes "reg_inv s as fs" "hnd_inv s as" "handles s h = Some c"
  shows "reg_inv (HEvent_dtor h s)
           (if handleLinks (heap s c) = 1 \<and> \<not> isActive (heap s c) then remove1 c as else as)
           (if handleLinks (heap s c) = 1 \<and> \<not> isActive (heap s c) then c # fs else fs) \<and>
         hnd_inv (HEvent_dtor h s)
           (if handleLinks (heap s c) = 1 \<and> \<not> isActive (heap s c) then remove1 c as else as)"
proof -
  have c: "c \<in> set as" using assms(2,3) by (auto simp: hnd_inv_def)
  have u: "HEvent_dtor h s = (freeHandle c s)\<lparr>handles := (handles s)(h := None)\<rparr>"
    using assms(3) by (simp add: HEvent_dtor_def)
  have "hnd_inv ((freeHandle c s)\<lparr>handles := (handles s)(h := None)\<rparr>)
          (if handleLinks (heap s c) = 1 \<and> \<not> isActive (heap s c) then remove1 c as else as)"
    using assms(2,3) unfolding hnd_inv_def
    by (auto simp: freeHandle_fields)
  then show ?thesis
    using freeHandle_reg_inv[OF assms(1) c] unfolding u by (simp add: reg_inv_handles_invoked)
qed

lemma clear_inv:
  assumes "reg_inv s as fs" "hnd_inv s as"
  shows "\<exists>s'. clear s = Some s' \<and> reg_inv s' (kept s as) (rev (dropped s as) @ fs) \<and>
           hnd_inv s' (kept s as)"
proof -
  from clear_reg_inv[OF assms(1)] obtain s' where
    s': "clear s = Some s'" "reg_inv s' (kept s as) (rev (dropped s as) @ fs)"
    "\<forall>a. handleLinks (heap s' a) = handleLinks (heap s a)" "handles s' = handles s"
    by blast
  have "hnd_inv s' (kept s as)"
    using assms(2) s'(3,4) unfolding hnd_inv_def kept_def by auto
  then show ?thesis using s' by blast
qed

lemma HEvent_connect_covered:
  assumes "lists_ok s as fs" "covered s as fs"
  shows "covered (HEvent_connect h f s) (new_record s fs # as) (tl fs)"
proof -
  obtain c s' where cs: "connect f s = (c, s')" by (cases "connect f s")
  have "allocated (HEvent_connect h f s) = allocated s'"
    using cs by (simp add: HEvent_connect_def)
  moreover have "allocated s' = (if fs = [] then Suc (allocated s) else allocated s)"
    using cs connect_fields(6)[OF assms(1), of f] by simp
  ultimately have "allocated (HEvent_connect h f s) =
      (if fs = [] then Suc (allocated s) else allocated s)" by simp
  then show ?thesis
    using assms(2) by (cases fs) (auto simp: covered_def new_record_def less_Suc_eq)
qed

lemma HEvent_disconnect_covered:
  assumes "covered s as fs" "handles s h = Some c"
  shows "covered (HEvent_disconnect h s)
           (if handleLinks (heap s c) = 1 then remove1 c as else as)
           (if handleLinks (heap s c) = 1 then c # fs else fs)"
proof -
  have "allocated (HEvent_disconnect h s) = allocated s"
    using assms(2) by (simp add: HEvent_disconnect_def disconnect_fields)
  then show ?thesis
    using assms(1) by (auto simp: covered_def) (metis in_set_remove1)+
qed

lemma HEvent_dtor_covered:
  assumes "covered s as fs" "handles s h = Some c"
  shows "covered (HEvent_dtor h s)
           (if handleLinks (heap s c) = 1 \<and> \<not> isActive (heap s c) then remove1 c as else as)
           (if handleLinks (heap s c) = 1 \<and> \<not> isActive (heap s c) then c # fs else fs)"
proof -
  have "allocated (HEvent_dtor h s) = allocated s"
    using assms(2) by (simp add: HEvent_dtor_def freeHandle_fields)
  then show ?thesis
    using assms(1) by (auto simp: covered_def) (metis in_set_remove1)+
qed

lemma clear_state_inv:
  assumes "reg_inv s as fs" "hnd_inv s as" "covered s as fs"
  shows "\<exists>s'. clear s = Some s' \<and> state_inv s'"
proof -
  from clear_reg_inv[OF assms(1)] obtain s' where
    s': "clear s = Some s'" "reg_inv s' (kept s as) (rev (dropped s as) @ fs)"
    "\<forall>a. handleLinks (heap s' a) = handleLinks (heap s a)" "handles s' = handles s"
    "allocated s' = allocated s"
    by blast
  have "hnd_inv s' (kept s as)"
    using assms(2) s'(3,4) unfolding hnd_inv_def kept_def by auto
  moreover have "covered s' (kept s as) (rev (dropped s as) @ fs)"
    using assms(3) s'(5) by (auto simp: covered_def kept_def dropped_def)
  ultimately show ?thesis using s'(1,2) unfolding state_inv_def by blast
qed

lemma exec_action_total:
  assumes "state_inv s"
  shows "\<exists>s'. exec_action a s = Some s' \<and> state_inv s'"
proof -
  from assms obtain as fs where i: "reg_inv s as fs" "hnd_inv s as" and c: "covered s as fs"
    by (auto simp: state_inv_def)
  have l: "lists_ok s as fs" using i(1) by (simp add: reg_inv_def)
  show ?thesis
  proof (cases a)
    case (Connect h f)
    have "state_inv (HEvent_connect h f s)"
      unfolding state_inv_def
      using HEvent_connect_inv[OF i, of h f] HEvent_connect_covered[OF l c, of h f] by blast
    then show ?thesis using Connect by simp
  next
    case (Disconnect h)
    show ?thesis
    proof (cases "handles s h")
      case None
      then show ?thesis using assms Disconnect by (simp add: HEvent_disconnect_def)
    next
      case (Some d)
      have "state_inv (HEvent_disconnect h s)"
        unfolding state_inv_def
        using HEvent_disconnect_inv[OF i Some] HEvent_disconnect_covered[OF c Some] by blast
      then show ?thesis using Disconnect by simp
    qed
  next
    case (Destroy h)
    show ?thesis
    proof (cases "handles s h")
      case None
      then show ?thesis using assms Destroy by (simp add: HEvent_dtor_def)
    next
      case (Some d)
      have "state_inv (HEvent_dtor h s)"
        unfolding state_inv_def
        using HEvent_dtor_inv[OF i Some] HEvent_dtor_covered[OF c Some] by blast
      then show ?thesis using Destroy by simp
    qed
  next
    case Clear
    then show ?thesis using clear_state_inv[OF i c] by simp
  qed
qed

lemma exec_actions_total:
  "state_inv s \<Longrightarrow> \<exists>s'. exec_actions acts s = Some s' \<and> state_inv s'"
proof (induction acts arbitrary: s)
  case Nil
  then show ?case by simp
next
  case (Cons a acts)
  from exec_action_total[OF Cons.prems, of a] obtain t where
    t: "exec_action a s = Some t" "state_inv t" by blast
  from Cons.IH[OF t(2)] t(1) show ?case by simp
qed

lemma state_inv_invoked: "state_inv (s\<lparr>invoked := tr\<rparr>) = state_inv s"
  by (simp add: state_inv_def reg_inv_handles_invoked hnd_inv_invoked covered_def)

lemma invoke_total: "state_inv s \<Longrightarrow> \<exists>s'. invoke cb s = Some s' \<and> state_inv s'"
proof (cases cb)
  case (Callback i acts)
  assume "state_inv s"
  then have "state_inv (s\<lparr>invoked := invoked s @ [i]\<rparr>)" by (simp add: state_inv_invoked)
  from exec_actions_total[OF this, of acts] show ?thesis using Callback by simp
qed

lemma walk_steps_total:
  "state_inv s \<Longrightarrow> \<exists>conn' s'. walk_steps n conn s = Some (conn', s') \<and> state_inv s'"
proof (induction n arbitrary: conn s)
  case 0
  then show ?case by simp
next
  case (Suc n)
  show ?case
  proof (cases conn)
    case None
    then show ?thesis using Suc.prems by simp
  next
    case (Some c)
    show ?thesis
    proof (cases "func (heap s c)")
      case None
      then show ?thesis using Suc.IH[OF Suc.prems, of "nxt (heap s c)"] Some by simp
    next
      case (Some cb)
      from invoke_total[OF Suc.prems, of cb] obtain t where
        t: "invoke cb s = Some t" "state_inv t" by blast
      then show ?thesis
        using Suc.IH[OF t(2), of "nxt (heap s c)"] Some \<open>conn = Some c\<close> by simp
    qed
  qed
qed

lemma walk_steps_trigger_loop:
  "walk_steps n conn s = Some (None, s') \<Longrightarrow> trigger_loop conn s = Some s'"
proof (induction n arbitrary: conn s)
  case 0
  then show ?case by (simp add: trigger_loop_None)
next
  case (Suc n)
  show ?case
  proof (cases conn)
    case None
    then show ?thesis using Suc.prems by (simp add: trigger_loop_None)
  next
    case (Some c)
    then obtain t where t: "(case func (heap s c) of Some cb \<Rightarrow> invoke cb s | None \<Rightarrow> Some s) = Some t"
      "walk_steps n (nxt (heap s c)) t = Some (None, s')"
      using Suc.prems by (auto split: option.splits)
    from Suc.IH[OF t(2)] t(1) Some show ?thesis by (simp add: trigger_loop_Some)
  qed
qed

lemma trigger_loop_walk_steps:
  assumes "trigger_loop conn s = Some s'"
  shows "\<exists>n. walk_steps n conn s = Some (None, s')"
proof (rule trigger_loop.raw_induct[where P="\<lambda>conn s s'. \<exists>n. walk_steps n conn s = Some (None, s')",
      OF _ assms], goal_cases)
  case (1 loop conn s s')
  show ?case
  proof (cases conn)
    case None
    then have "walk_steps 0 conn s = Some (None, s')" using 1(2) by simp
    then show ?thesis ..
  next
    case (Some c)
    then obtain t where t: "(case func (heap s c) of Some cb \<Rightarrow> invoke cb s | None \<Rightarrow> Some s) = Some t"
      "loop (nxt (heap s c)) t = Some s'"
      using 1(2) by (auto split: option.splits)
    from 1(1)[OF t(2)] obtain n where "walk_steps n (nxt (heap s c)) t = Some (None, s')" ..
    then have "walk_steps (Suc n) conn s = Some (None, s')" using t(1) Some by simp
    then show ?thesis ..
  qed
qed

lemma trigger_inv: "state_inv s \<Longrightarrow> trigger s = Some s' \<Longrightarrow> state_inv s'"
proof -
  assume i: "state_inv s" and t: "trigger s = Some s'"
  from t obtain n where "walk_steps n (mConnections s) s = Some (None, s')"
    using trigger_loop_walk_steps[of "mConnections s" s s'] by (auto simp: trigger_def)
  then show ?thesis using walk_steps_total[OF i, of n "mConnections s"] by simp
qed

lemma exec_action_inv: "state_inv s \<Longrightarrow> exec_action a s = Some s' \<Longrightarrow> state_inv s'"
  using exec_action_total[of s a] by auto

lemma run_op_inv: "state_inv s \<Longrightarrow> run_op x s = Some s' \<Longrightarrow> state_inv s'"
  by (cases x) (auto dest: exec_action_inv trigger_inv)

lemma run_inv: "state_inv s \<Longrightarrow> run xs s = Some s' \<Longrightarrow> state_inv s'"
  by (induction xs arbitrary: s) (auto split: option.splits dest: run_op_inv)

lemma run_total:
  "state_inv s \<Longrightarrow> Trigger \<notin> set xs \<Longrightarrow> \<exists>s'. run xs s = Some s'"
proof (induction xs arbitrary: s)
  case Nil
  then show ?case by simp
next
  case (Cons x xs)
  then obtain a where x: "x = Do a" by (cases x) auto
  from exec_action_total[OF Cons.prems(1), of a] obtain t where
    t: "exec_action a s = Some t" "state_inv t" by blast
  from Cons.IH[OF t(2)] Cons.prems(2) t(1) x show ?case by simp
qed

lemma state_inv_settled: "state_inv s \<Longrightarrow> settled s"
proof -
  assume "state_inv s"
  then obtain as fs where i: "reg_inv s as fs" "hnd_inv s as" "covered s as fs"
    by (auto simp: state_inv_def)
  have a: "\<forall>a \<in> set as. isActive (heap s a) \<or> handleLinks (heap s a) \<noteq> 0"
    and f: "\<forall>a \<in> set fs. handleLinks (heap s a) = 0 \<and> \<not> isActive (heap s a)"
    using i(1) by (auto simp: reg_inv_def recs_ok_def dtor_assert_def)
  have c: "\<forall>a. a < allocated s \<longrightarrow> a \<in> set as \<or> a \<in> set fs"
    using i(3) by (simp add: covered_def)
  have r: "\<forall>a. a < allocated s \<longrightarrow>
           handleLinks (heap s a) = 0 \<and> \<not> isActive (heap s a) \<longrightarrow>
           a \<in> set fs \<and> a \<notin> set as"
    using a c by blast
  have l: "lists_ok s as fs" using i(1) by (simp add: reg_inv_def)
  show ?thesis unfolding settled_def using l i(2) a f c r by blast
qed

lemma TEvent_ctor_state_inv: "state_inv TEvent_ctor"
  unfolding state_inv_def
  by (intro exI[of _ "[]"]) (simp add: inv_defs covered_def TEvent_ctor_def)

section \<open>Triggering callbacks that disconnect themselves\<close>

lemma only_disconnects_mono:
  assumes "only_disconnects hs W acts" "\<And>h. hs' h = None \<or> hs' h = hs h"
  shows "only_disconnects hs' W acts"
  using assms(1)
proof (induction acts)
  case Nil
  then show ?case by simp
next
  case (Cons act acts)
  then obtain h where act: "act = Disconnect h" by (cases act) auto
  show ?case using Cons assms(2)[of h] unfolding act
    by (cases "hs' h") auto
qed

lemma tidy_mono:
  assumes "tidy s vs rs" "\<And>a. a \<in> set rs \<Longrightarrow> func (heap t a) = func (heap s a)"
    "\<And>h. handles t h = None \<or> handles t h = handles s h"
  shows "tidy t vs rs"
  using assms(1,2)
proof (induction rs arbitrary: vs)
  case Nil
  then show ?case by simp
next
  case (Cons a rs)
  then show ?case using only_disconnects_mono[OF _ assms(3)]
    by (auto split: option.splits)
qed

lemma HEvent_disconnect_Some:
  assumes "handles s h = Some c"
  shows "heap (HEvent_disconnect h s) = heap (disconnect c s)"
    "invoked (HEvent_disconnect h s) = invoked s"
    "handles (HEvent_disconnect h s) = (handles s)(h := None)"
  using assms by (simp_all add: HEvent_disconnect_def disconnect_fields)

lemma exec_disconnects:
  assumes "reg_inv t (pre @ rs) fs" "hnd_inv t (pre @ rs)"
    "only_disconnects (handles t) W acts" "set W \<inter> set rs = {}"
  shows "\<exists>t' pre' fs'. exec_actions acts t = Some t' \<and>
           reg_inv t' (pre' @ rs) fs' \<and> hnd_inv t' (pre' @ rs) \<and> set pre' \<subseteq> set pre \<and>
           (\<forall>a. a \<notin> set W \<longrightarrow> func (heap t' a) = func (heap t a)) \<and>
           (\<forall>h. handles t' h = None \<or> handles t' h = handles t h) \<and>
           invoked t' = invoked t"
  using assms
proof (induction acts arbitrary: t pre fs)
  case Nil
  then show ?case by auto
next
  case (Cons act acts)
  from Cons.prems(3) obtain h where act: "act = Disconnect h"
    by (cases act) auto
  have od: "only_disconnects (handles t) W acts" using Cons.prems(3) act by simp
  show ?case
  proof (cases "handles t h")
    case None
    then have "exec_action act t = Some t" by (simp add: act HEvent_disconnect_def)
    then show ?thesis using Cons.IH[OF Cons.prems(1,2) od Cons.prems(4)] by simp
  next
    case (Some c)
    let ?t1 = "HEvent_disconnect h t"
    let ?pre1 = "if handleLinks (heap t c) = 1 then remove1 c pre else pre"
    let ?fs1 = "if handleLinks (heap t c) = 1 then c # fs else fs"
    have cW: "c \<in> set W" using Cons.prems(3) act Some by simp
    have "c \<in> set (pre @ rs)" using Cons.prems(2) Some by (auto simp: hnd_inv_def)
    then have cp: "c \<in> set pre" "c \<notin> set rs" using cW Cons.prems(4) by auto
    have rm: "remove1 c (pre @ rs) = remove1 c pre @ rs" using cp by (simp add: remove1_append)
    have i1: "reg_inv ?t1 (?pre1 @ rs) ?fs1" "hnd_inv ?t1 (?pre1 @ rs)"
      using HEvent_disconnect_inv[OF Cons.prems(1,2) Some] rm by (auto split: if_splits)
    have od1: "only_disconnects (handles ?t1) W acts"
      by (rule only_disconnects_mono[OF od]) (simp add: HEvent_disconnect_Some[OF Some])
    from Cons.IH[OF i1 od1 Cons.prems(4)] obtain t' pre' fs' where
      t': "exec_actions acts ?t1 = Some t'" "reg_inv t' (pre' @ rs) fs'" "hnd_inv t' (pre' @ rs)"
      "set pre' \<subseteq> set ?pre1" "\<forall>a. a \<notin> set W \<longrightarrow> func (heap t' a) = func (heap ?t1 a)"
      "\<forall>h. handles t' h = None \<or> handles t' h = handles ?t1 h" "invoked t' = invoked ?t1"
      by blast
    have s1: "set pre' \<subseteq> set pre" using t'(4) set_remove1_subset[of c pre] by (auto split: if_splits)
    have f1: "\<forall>a. a \<notin> set W \<longrightarrow> func (heap t' a) = func (heap t a)"
      using t'(5) cW by (auto simp: HEvent_disconnect_Some[OF Some] disconnect_fields)
    have h1: "\<forall>h. handles t' h = None \<or> handles t' h = handles t h"
    proof
      fix k
      show "handles t' k = None \<or> handles t' k = handles t k"
        using t'(6)[rule_format, of k] by (auto simp: HEvent_disconnect_Some[OF Some] split: if_splits)
    qed
    have v1: "invoked t' = invoked t" using t'(7) by (simp add: HEvent_disconnect_Some[OF Some])
    have e: "exec_actions (act # acts) t = Some t'" using t'(1) act by simp
    show ?thesis using e t'(2,3) s1 f1 h1 v1 by blast
  qed
qed


lemma trigger_loop_tidy:
  assumes "reg_inv t (pre @ rs) fs" "hnd_inv t (pre @ rs)" "tidy t vs rs"
    "set vs \<inter> set rs = {}"
  shows "\<exists>t' as' fs'. trigger_loop (hdp rs) t = Some t' \<and>
           invoked t' = invoked t @ labels t rs \<and>
           reg_inv t' as' fs' \<and> hnd_inv t' as' \<and> set as' \<subseteq> set (pre @ rs)"
  using assms
proof (induction rs arbitrary: t pre fs vs)
  case Nil
  then show ?case by (auto simp: trigger_loop_None labels_def)
next
  case (Cons r rs)
  have l: "lists_ok t (pre @ r # rs) fs" using Cons.prems(1) by (simp add: reg_inv_def)
  have nx: "nxt (heap t r) = hdp rs" using l by (rule lists_ok_nxt)
  have d: "r \<notin> set rs" using l by (simp add: lists_ok_def)
  have vs: "set (r # vs) \<inter> set rs = {}" using Cons.prems(4) d by auto
  have td: "tidy t (r # vs) rs" using Cons.prems(3) by simp
  show ?case
  proof (cases "func (heap t r)")
    case None
    have "\<exists>t' as' fs'. trigger_loop (hdp rs) t = Some t' \<and>
           invoked t' = invoked t @ labels t rs \<and> reg_inv t' as' fs' \<and> hnd_inv t' as' \<and>
           set as' \<subseteq> set ((pre @ [r]) @ rs)"
      using Cons.prems(1,2) by (intro Cons.IH[of t "pre @ [r]" fs "r # vs"] td vs) simp_all
    then show ?thesis using None nx by (simp add: trigger_loop_Some labels_Cons)
  next
    case (Some cb)
    obtain i acts where cb: "cb = Callback i acts" by (cases cb)
    let ?t1 = "t\<lparr>invoked := invoked t @ [i]\<rparr>"
    have od: "only_disconnects (handles ?t1) (r # vs) acts"
      using Cons.prems(3) Some cb by simp
    have i1: "reg_inv ?t1 ((pre @ [r]) @ rs) fs" "hnd_inv ?t1 ((pre @ [r]) @ rs)"
      using Cons.prems(1,2) by (simp_all add: reg_inv_handles_invoked hnd_inv_invoked)
    from exec_disconnects[OF i1 od vs] obtain t2 pre2 fs2 where
      t2: "exec_actions acts ?t1 = Some t2" "reg_inv t2 (pre2 @ rs) fs2" "hnd_inv t2 (pre2 @ rs)"
      "set pre2 \<subseteq> set (pre @ [r])"
      "\<forall>a. a \<notin> set (r # vs) \<longrightarrow> func (heap t2 a) = func (heap ?t1 a)"
      "\<forall>h. handles t2 h = None \<or> handles t2 h = handles ?t1 h" "invoked t2 = invoked ?t1"
      by blast
    have fr: "func (heap t2 a) = func (heap t a)" if "a \<in> set rs" for a
      using t2(5) that vs by auto
    have td2: "tidy t2 (r # vs) rs"
      using t2(6) by (intro tidy_mono[OF td fr]) auto
    from Cons.IH[OF t2(2,3) td2 vs] obtain t' as' fs' where
      t': "trigger_loop (hdp rs) t2 = Some t'" "invoked t' = invoked t2 @ labels t2 rs"
      "reg_inv t' as' fs'" "hnd_inv t' as'" "set as' \<subseteq> set (pre2 @ rs)"
      by blast
    have lb: "labels t2 rs = labels t rs" by (rule labels_cong) (rule fr)
    have "trigger_loop (hdp (r # rs)) t = Some t'"
      using Some cb t2(1) t'(1) nx by (simp add: trigger_loop_Some)
    moreover have "invoked t' = invoked t @ labels t (r # rs)"
      using t'(2) t2(7) lb Some cb by (simp add: labels_Cons)
    moreover have "set as' \<subseteq> set (pre @ r # rs)" using t'(5) t2(4) by auto
    ultimately show ?thesis using t'(3,4) by blast
  qed
qed

lemma self_disconnecting_inv:
  "reg_inv self_disconnecting [2, 1, 0] []" "hnd_inv self_disconnecting [2, 1, 0]"
  "tidy self_disconnecting [] [2, 1, 0]"
  by (simp_all add: self_disconnecting_def run_simps inv_defs)

section \<open>Triggering callbacks that only connect\<close>

text \<open>
  When the callbacks only connect, the records they add go in front of the active list,
  the trigger invokes the records that were there when it began and no other, and the
  new ones are in the list that the next trigger walks.
\<close>

lemma HEvent_connect_reg:
  assumes "reg_inv s as fs"
  shows "reg_inv (HEvent_connect h f s) (new_record s fs # as) (tl fs)"
    "new_record s fs \<notin> set as"
    "invoked (HEvent_connect h f s) = invoked s"
    "func (heap (HEvent_connect h f s) a) = (if a = new_record s fs then f else func (heap s a))"
proof -
  have l: "lists_ok s as fs" using assms by (simp add: reg_inv_def)
  obtain c s' where cs: "connect f s = (c, s')" by (cases "connect f s")
  have c: "c = new_record s fs" and s': "s' = snd (connect f s)"
    using connect_fst[OF l, of f] cs by simp_all
  have u: "HEvent_connect h f s = s'\<lparr>handles := (handles s')(h := Some c)\<rparr>"
    using cs by (simp add: HEvent_connect_def)
  show "reg_inv (HEvent_connect h f s) (new_record s fs # as) (tl fs)"
    using connect_reg_inv[OF assms, of f] unfolding u s' by (simp add: reg_inv_handles_invoked)
  show "new_record s fs \<notin> set as"
    using l by (cases fs) (auto simp: lists_ok_def new_record_def)
  show "invoked (HEvent_connect h f s) = invoked s"
    unfolding u s' by (simp add: connect_fields[OF l])
  show "func (heap (HEvent_connect h f s) a) = (if a = new_record s fs then f else func (heap s a))"
    unfolding u s' by (simp add: connect_fields[OF l])
qed

lemma exec_connects:
  assumes "reg_inv t as fs" "only_connects acts"
  shows "\<exists>t' new fs'. exec_actions acts t = Some t' \<and> reg_inv t' (new @ as) fs' \<and>
           (\<forall>a \<in> set as. func (heap t' a) = func (heap t a)) \<and> invoked t' = invoked t"
  using assms
proof (induction acts arbitrary: t as fs)
  case Nil
  then show ?case by (intro exI[of _ t] exI[of _ "[]"] exI[of _ fs]) simp
next
  case (Cons act acts)
  then obtain h f where act: "act = Connect h f" by (cases act) auto
  let ?t1 = "HEvent_connect h f t"
  let ?c = "new_record t fs"
  have c: "reg_inv ?t1 (?c # as) (tl fs)" "?c \<notin> set as" "invoked ?t1 = invoked t"
    "\<And>a. func (heap ?t1 a) = (if a = ?c then f else func (heap t a))"
    using HEvent_connect_reg[OF Cons.prems(1)] by blast+
  have oc: "only_connects acts" using Cons.prems(2) act by simp
  from Cons.IH[OF c(1) oc] obtain t' new fs' where
    t': "exec_actions acts ?t1 = Some t'" "reg_inv t' (new @ ?c # as) fs'"
    "\<forall>a \<in> set (?c # as). func (heap t' a) = func (heap ?t1 a)" "invoked t' = invoked ?t1"
    by blast
  have "\<forall>a \<in> set as. func (heap t' a) = func (heap t a)"
    using t'(3) c(2) by (auto simp: c(4))
  moreover have "reg_inv t' ((new @ [?c]) @ as) fs'" using t'(2) by simp
  moreover have "exec_actions (act # acts) t = Some t'" using t'(1) act by simp
  ultimately show ?case using t'(4) c(3) by metis
qed

lemma growing_cong:
  "growing s rs \<Longrightarrow> \<forall>a \<in> set rs. func (heap t a) = func (heap s a) \<Longrightarrow> growing t rs"
  by (simp add: growing_def)

lemma trigger_loop_growing:
  assumes "reg_inv t (pre @ rs) fs" "growing t rs"
  shows "\<exists>t' new fs'. trigger_loop (hdp rs) t = Some t' \<and>
           invoked t' = invoked t @ labels t rs \<and> reg_inv t' (new @ pre @ rs) fs' \<and>
           (\<forall>a \<in> set (pre @ rs). func (heap t' a) = func (heap t a))"
  using assms
proof (induction rs arbitrary: t pre fs)
  case Nil
  then show ?case
    by (intro exI[of _ t] exI[of _ "[]"] exI[of _ fs]) (simp add: trigger_loop_None labels_def)
next
  case (Cons r rs)
  have l: "lists_ok t (pre @ r # rs) fs" using Cons.prems(1) by (simp add: reg_inv_def)
  have nx: "nxt (heap t r) = hdp rs" using l by (rule lists_ok_nxt)
  have g: "growing t rs" using Cons.prems(2) by (simp add: growing_def)
  show ?case
  proof (cases "func (heap t r)")
    case None
    from Cons.IH[of t "pre @ [r]" fs] Cons.prems(1) g obtain t' new fs' where
      t': "trigger_loop (hdp rs) t = Some t'" "invoked t' = invoked t @ labels t rs"
      "reg_inv t' (new @ (pre @ [r]) @ rs) fs'"
      "\<forall>a \<in> set ((pre @ [r]) @ rs). func (heap t' a) = func (heap t a)"
      by auto
    have a: "trigger_loop (hdp (r # rs)) t = Some t'"
      using None nx t'(1) by (simp add: trigger_loop_Some)
    have b: "invoked t' = invoked t @ labels t (r # rs)"
      using None t'(2) by (simp add: labels_Cons)
    have c: "reg_inv t' (new @ pre @ r # rs) fs'" using t'(3) by simp
    have d: "\<forall>a \<in> set (pre @ r # rs). func (heap t' a) = func (heap t a)" using t'(4) by simp
    show ?thesis using a b c d by blast
  next
    case (Some cb)
    obtain i acts where cb: "cb = Callback i acts" by (cases cb)
    let ?t1 = "t\<lparr>invoked := invoked t @ [i]\<rparr>"
    have oc: "only_connects acts" using Cons.prems(2) Some cb by (simp add: growing_def)
    have i1: "reg_inv ?t1 (pre @ r # rs) fs"
      using Cons.prems(1) by (simp add: reg_inv_handles_invoked)
    from exec_connects[OF i1 oc] obtain t2 new fs2 where
      t2: "exec_actions acts ?t1 = Some t2" "reg_inv t2 (new @ pre @ r # rs) fs2"
      "\<forall>a \<in> set (pre @ r # rs). func (heap t2 a) = func (heap ?t1 a)" "invoked t2 = invoked ?t1"
      by blast
    have fr: "\<forall>a \<in> set rs. func (heap t2 a) = func (heap t a)" using t2(3) by simp
    have g2: "growing t2 rs" by (rule growing_cong[OF g fr])
    have r2: "reg_inv t2 ((new @ pre @ [r]) @ rs) fs2" using t2(2) by simp
    from Cons.IH[OF r2 g2] obtain t' new' fs' where
      t': "trigger_loop (hdp rs) t2 = Some t'" "invoked t' = invoked t2 @ labels t2 rs"
      "reg_inv t' (new' @ (new @ pre @ [r]) @ rs) fs'"
      "\<forall>a \<in> set ((new @ pre @ [r]) @ rs). func (heap t' a) = func (heap t2 a)"
      by blast
    have lb: "labels t2 rs = labels t rs" using fr by (intro labels_cong) simp
    have a: "trigger_loop (hdp (r # rs)) t = Some t'"
      using Some cb nx t2(1) t'(1) by (simp add: trigger_loop_Some)
    have b: "invoked t' = invoked t @ labels t (r # rs)"
      using Some cb t'(2) t2(4) lb by (simp add: labels_Cons)
    have c: "reg_inv t' ((new' @ new) @ pre @ r # rs) fs'" using t'(3) by simp
    have d: "\<forall>a \<in> set (pre @ r # rs). func (heap t' a) = func (heap t a)"
      using t'(4) t2(3) by auto
    show ?thesis using a b c d by blast
  qed
qed

lemma trigger_growing:
  assumes "reg_inv s as fs" "growing s as"
  shows "\<exists>s' new fs'. trigger s = Some s' \<and> invoked s' = invoked s @ labels s as \<and>
           reg_inv s' (new @ as) fs' \<and>
           (\<forall>a \<in> set as. func (heap s' a) = func (heap s a))"
proof -
  have p: "mConnections s = hdp as"
    using assms(1) by (auto simp: reg_inv_def lists_ok_def dest: seg_hdp_None)
  show ?thesis
    using trigger_loop_growing[of s "[]" as fs] assms p by (simp add: trigger_def)
qed

section \<open>Handle assignment\<close>

text \<open>
  C6.  With handle 0 on record 0 and handle 1 on record 1, each record counting one
  handle, the assignment \<open>handle 0 = handle 1\<close> makes handle 0 refer to record 1 and
  raises that record's \<open>handleLinks\<close> to 2, and it leaves the \<open>handleLinks\<close> of
  record 0, which handle 0 referred to before, at 1: the previous reference is not
  released.
\<close>

theorem HEvent_assign_previous_reference_kept:
  "handles two_subscriptions 0 = Some 0 \<and>
   handles two_subscriptions 1 = Some 1 \<and>
   handleLinks (heap two_subscriptions 0) = 1 \<and>
   handleLinks (heap two_subscriptions 1) = 1 \<and>
   handles (HEvent_assign 0 1 two_subscriptions) 0 = Some 1 \<and>
   handleLinks (heap (HEvent_assign 0 1 two_subscriptions) 1) = 2 \<and>
   handleLinks (heap (HEvent_assign 0 1 two_subscriptions) 0) = 1"
  by (simp add: two_subscriptions_def run_simps)

section \<open>Connecting during a trigger\<close>

text \<open>
  C4.  In \<open>swap_next\<close> the active list is record 1 (label 1) followed by record 0
  (label 2).  The trigger invokes label 1, whose callback disconnects the subscription of
  record 0, the next one of the walk, and connects a new subscription labelled 3; the new
  subscription takes over the freed record 0, and the same trigger goes on to invoke it
  and then label 1 a second time.
\<close>

theorem trigger_invokes_subscription_connected_meanwhile:
  "map_option invoked (trigger swap_next) = Some [1, 3, 1]"
  by (simp add: swap_next_def run_simps)

section \<open>Single delivery\<close>

text \<open>
  C1.  In \<open>skip_state\<close> the active list is record 2 (label 3), record 1 (label 2),
  record 0 (label 1), all three active with their callbacks.  One trigger invokes label 3,
  whose callback disconnects the subscription of record 1, the next one of the walk.  The
  walk goes on from the freed record, whose \<open>next\<close> is now null, and ends: the trace
  is label 3 alone, and record 0, still active, still holding its callback and still in
  the active list, was not invoked.
\<close>

theorem trigger_skips_active_callback:
  "mConnections skip_state = Some 2 \<and>
   nxt (heap skip_state 2) = Some 1 \<and> nxt (heap skip_state 1) = Some 0 \<and>
   nxt (heap skip_state 0) = None \<and>
   isActive (heap skip_state 2) \<and> isActive (heap skip_state 1) \<and> isActive (heap skip_state 0) \<and>
   map (\<lambda>a. func (heap skip_state a)) [2, 1, 0] =
     [Some (Callback 3 [Disconnect 1]), Some (Callback 2 []), Some (Callback 1 [])] \<and>
   map_option
     (\<lambda>s. (invoked s, mConnections s, nxt (heap s 2), nxt (heap s 0),
           isActive (heap s 0), func (heap s 0), mFreeConnections s))
     (trigger skip_state) =
     Some ([3], Some 2, Some 0, None, True, Some (Callback 1 []), Some 1)"
  by (simp add: skip_state_def run_simps)

text \<open>
  When none of the callbacks touches the registry, delivery is as expected.  Take any
  well-formed registry with active list \<open>as\<close>, and connect the callbacks \<open>cbs\<close> one
  after the other (an entry \<open>None\<close> is an empty \<open>std::function\<close>).  One trigger then
  returns, changes nothing but the trace, and appends to the trace the labels of the new
  callbacks, the one connected last first, followed by those of the records that were
  there before in list order; each record contributes its label once, a record without
  callback nothing.
\<close>

lemma trigger_quiet_most_recent_first:
  assumes "reg_inv s as fs"
    and "\<forall>a \<in> set as. quiet (func (heap s a))"
    and "\<forall>f \<in> set cbs. quiet f"
  shows "trigger (connect_all cbs s) =
           Some ((connect_all cbs s)\<lparr>invoked := invoked s @ rev (cb_labels cbs) @ labels s as\<rparr>)"
proof -
  let ?t = "connect_all cbs s"
  from connect_all_reg_inv[OF assms(1), of cbs] obtain bs gs where
    b: "reg_inv ?t (bs @ as) gs"
    "map (\<lambda>a. func (heap ?t a)) (bs @ as) = rev cbs @ map (\<lambda>a. func (heap s a)) as"
    "invoked ?t = invoked s"
    by blast
  have sg: "seg (heap ?t) (mConnections ?t) (bs @ as) None"
    using b(1) by (simp add: reg_inv_def lists_ok_def)
  have "set (map (\<lambda>a. func (heap ?t a)) (bs @ as)) \<subseteq> set cbs \<union> (\<lambda>a. func (heap s a)) ` set as"
    unfolding b(2) by auto
  then have q: "\<forall>a \<in> set (bs @ as). quiet (func (heap ?t a))"
    using assms(2,3) by auto
  have "labels ?t (bs @ as) = rev (cb_labels cbs) @ labels s as"
    unfolding labels_def b(2) by (simp add: cb_labels_append cb_labels_rev)
  then show ?thesis
    using trigger_loop_quiet[OF sg q] b(3) by (simp add: trigger_def)
qed

lemma trigger_quiet_most_recent_first_example:
  "reg_inv one_subscription [0] [] \<and>
   quiet (func (heap one_subscription 0)) \<and>
   quiet (Some (Callback 2 [])) \<and> quiet None \<and> quiet (Some (Callback 3 [])) \<and>
   map_option invoked
     (trigger (connect_all [Some (Callback 2 []), None, Some (Callback 3 [])] one_subscription)) =
     Some [3, 2, 1]"
proof -
  have r: "reg_inv one_subscription [0] []"
    by (simp add: one_subscription_def run_simps inv_defs)
  have f: "func (heap one_subscription 0) = Some (Callback 1 [])" "invoked one_subscription = []"
    by (simp_all add: one_subscription_def run_simps)
  show ?thesis
    using trigger_quiet_most_recent_first[OF r, of "[Some (Callback 2 []), None, Some (Callback 3 [])]"] r f
    by (simp add: labels_def)
qed

section \<open>The emptiness check\<close>

text \<open>
  C5.  A new event is empty.  With one subscription whose handle is still held,
  \<open>clear\<close> returns, deactivates the record and empties its callback, so that no
  callback is registered any more, and leaves the record linked in the active list:
  \<open>empty\<close> returns false after \<open>clear\<close>.
\<close>

theorem TEvent_empty_false_after_clear:
  "TEvent_empty TEvent_ctor \<and>
   mConnections one_subscription = Some 0 \<and>
   func (heap one_subscription 0) = Some (Callback 1 []) \<and>
   handles one_subscription 0 = Some 0 \<and>
   map_option
     (\<lambda>s. (TEvent_empty s, mConnections s, func (heap s 0), isActive (heap s 0),
           handleLinks (heap s 0)))
     (clear one_subscription) =
     Some (False, Some 0, None, False, 1)"
  by (simp add: one_subscription_def run_simps)

text \<open>
  What \<open>empty\<close> tests in general.  In a well-formed registry with active list \<open>as\<close>
  it is true exactly when \<open>as\<close> has no record, whatever the free list holds; after
  \<open>clear\<close> that is the case exactly when no record of the active list was counted by a
  handle; and it is false while a record of the active list is active.
\<close>

lemma TEvent_empty_iff_no_record:
  assumes "reg_inv s as fs"
  shows "(TEvent_empty s \<longleftrightarrow> as = []) \<and>
         TEvent_empty TEvent_ctor \<and>
         (\<exists>s'. clear s = Some s' \<and>
               (TEvent_empty s' \<longleftrightarrow> (\<forall>a \<in> set as. handleLinks (heap s a) = 0))) \<and>
         ((\<exists>a \<in> set as. isActive (heap s a)) \<longrightarrow> \<not> TEvent_empty s)"
proof -
  have e: "TEvent_empty t \<longleftrightarrow> bs = []" if "reg_inv t bs gs" for t bs gs
    using that by (cases bs) (auto simp: TEvent_empty_def reg_inv_def lists_ok_def)
  from clear_reg_inv[OF assms] obtain s' where
    s': "clear s = Some s'" "reg_inv s' (kept s as) (rev (dropped s as) @ fs)"
    by blast
  have "TEvent_empty s' \<longleftrightarrow> (\<forall>a \<in> set as. handleLinks (heap s a) = 0)"
    using e[OF s'(2)] by (auto simp: kept_def filter_empty_conv)
  then show ?thesis
    using e[OF assms] s'(1) by (auto simp: TEvent_empty_def TEvent_ctor_def)
qed

lemma TEvent_empty_iff_no_record_example:
  "reg_inv one_dropped [1, 0] [] \<and> \<not> TEvent_empty one_dropped \<and>
   handleLinks (heap one_dropped 1) = 0 \<and> handleLinks (heap one_dropped 0) = 1 \<and>
   (\<exists>s'. clear one_dropped = Some s' \<and> \<not> TEvent_empty s')"
proof -
  have h: "handleLinks (heap one_dropped 1) = 0" "handleLinks (heap one_dropped 0) = 1"
    by (simp_all add: one_dropped_def two_subscriptions_def run_simps)
  show ?thesis
    using TEvent_empty_iff_no_record[OF one_dropped_reg_inv] one_dropped_reg_inv h by auto
qed

section \<open>Destroying a handle\<close>




section \<open>Disconnecting through a handle\<close>

text \<open>
  C7.  In a well-formed registry, let the handle \<open>h\<close> refer to the record \<open>c\<close> of the
  active list.  \<open>h.disconnect()\<close> makes \<open>c\<close> inactive, empties its callback,
  decrements \<open>handleLinks\<close> and unsets \<open>h\<close>.  If the count was 1 the record leaves
  the active list and becomes the head of the free list; otherwise both lists are as
  before, the record still linked and inactive, and when the count was 2 the release of
  the remaining handle moves it to the free list.  A trigger afterwards (callbacks that
  leave the registry alone) invokes the callbacks of the other records only.
\<close>

theorem HEvent_disconnect_deactivates:
  assumes "reg_inv s as fs" and "handles s h = Some c" and "c \<in> set as"
  shows "\<not> isActive (heap (HEvent_disconnect h s) c) \<and>
         func (heap (HEvent_disconnect h s) c) = None \<and>
         handleLinks (heap (HEvent_disconnect h s) c) = handleLinks (heap s c) - 1 \<and>
         handles (HEvent_disconnect h s) h = None \<and>
         (handleLinks (heap s c) = 1 \<longrightarrow>
            reg_inv (HEvent_disconnect h s) (remove1 c as) (c # fs)) \<and>
         (handleLinks (heap s c) \<noteq> 1 \<longrightarrow>
            reg_inv (HEvent_disconnect h s) as fs) \<and>
         (handleLinks (heap s c) = 2 \<longrightarrow>
            reg_inv (freeHandle c (HEvent_disconnect h s)) (remove1 c as) (c # fs)) \<and>
         ((\<forall>a \<in> set as. quiet (func (heap s a))) \<longrightarrow>
            trigger (HEvent_disconnect h s) =
              Some ((HEvent_disconnect h s)\<lparr>invoked := invoked s @ labels s (remove1 c as)\<rparr>))"
proof -
  let ?t = "disconnect c s"
  let ?u = "HEvent_disconnect h s"
  let ?as = "if handleLinks (heap s c) = 1 then remove1 c as else as"
  let ?fs = "if handleLinks (heap s c) = 1 then c # fs else fs"
  have u: "?u = ?t\<lparr>handles := (handles s)(h := None)\<rparr>"
    using assms(2) by (simp add: HEvent_disconnect_def)
  have f: "heap ?u = heap ?t" "invoked ?u = invoked s" by (simp_all add: u disconnect_fields)
  have d: "distinct as" using assms(1) by (simp add: inv_defs)
  have r: "reg_inv ?u ?as ?fs"
    using disconnect_reg_inv[OF assms(1,3)] unfolding u by (simp add: inv_defs)
  have two: "reg_inv (freeHandle c ?u) (remove1 c as) (c # fs)" if "handleLinks (heap s c) = 2"
  proof -
    have "reg_inv ?u as fs" using r that by simp
    from freeHandle_reg_inv[OF this assms(3)] that show ?thesis
      by (simp add: f disconnect_fields)
  qed
  have tr: "trigger ?u = Some (?u\<lparr>invoked := invoked s @ labels s (remove1 c as)\<rparr>)"
    if q: "\<forall>a \<in> set as. quiet (func (heap s a))"
  proof -
    have "\<forall>a \<in> set ?as. quiet (func (heap ?u a))"
      using q by (auto simp: f disconnect_fields dest: notin_set_remove1)
    moreover have "labels ?u as = labels s (remove1 c as)"
      by (rule labels_remove1[OF d]) (simp_all add: f disconnect_fields)
    moreover have "labels ?u (remove1 c as) = labels s (remove1 c as)"
      using d by (intro labels_cong) (auto simp: f disconnect_fields)
    ultimately show ?thesis using trigger_quiet[OF r] f by (simp split: if_splits)
  qed
  have r1: "handleLinks (heap s c) = 1 \<longrightarrow> reg_inv ?u (remove1 c as) (c # fs)"
    and r2: "handleLinks (heap s c) \<noteq> 1 \<longrightarrow> reg_inv ?u as fs"
    using r by (auto split: if_splits)
  have h: "handles ?u h = None" by (simp add: u)
  show ?thesis
    using r1 r2 two tr h by (simp add: f disconnect_fields)
qed


theorem HEvent_disconnect_deactivates_witness:
  "reg_inv copied_handle [1, 0] [] \<and> handles copied_handle 1 = Some 1 \<and>
   handleLinks (heap copied_handle 1) = 2 \<and>
   \<not> isActive (heap (HEvent_disconnect 1 copied_handle) 1) \<and>
   func (heap (HEvent_disconnect 1 copied_handle) 1) = None \<and>
   handleLinks (heap (HEvent_disconnect 1 copied_handle) 1) = 1 \<and>
   reg_inv (HEvent_disconnect 1 copied_handle) [1, 0] [] \<and>
   reg_inv (freeHandle 1 (HEvent_disconnect 1 copied_handle)) [0] [1] \<and>
   map_option invoked (trigger (HEvent_disconnect 1 copied_handle)) = Some [1]"
proof -
  have r: "reg_inv copied_handle [1, 0] []"
    by (simp add: copied_handle_def two_subscriptions_def run_simps inv_defs)
  have h: "handles copied_handle 1 = Some 1"
    by (simp add: copied_handle_def two_subscriptions_def run_simps)
  have f: "handleLinks (heap copied_handle 1) = 2"
    "func (heap copied_handle 1) = Some (Callback 2 [])"
    "func (heap copied_handle 0) = Some (Callback 1 [])" "invoked copied_handle = []"
    by (simp_all add: copied_handle_def two_subscriptions_def run_simps)
  show ?thesis
    using HEvent_disconnect_deactivates[OF r h] r h f by (simp add: labels_def)
qed

section \<open>Recycling records\<close>

text \<open>
  C9, as stated, fails when a disconnected record is still counted by the copy of a
  handle.  In \<open>copied_handle\<close> record 1 counts two handles; disconnecting both
  subscriptions frees record 0 only, and after two connects the active list has three
  records, one of them newly allocated.
\<close>

theorem reconnect_with_copied_handle_counterexample:
  "reg_inv copied_handle [1, 0] [] \<and>
   reg_inv (connect_all [Some (Callback 5 []), Some (Callback 6 [])]
              (disconnect_all [1, 0] copied_handle)) [2, 0, 1] [] \<and>
   allocated copied_handle = 2 \<and>
   allocated (connect_all [Some (Callback 5 []), Some (Callback 6 [])]
              (disconnect_all [1, 0] copied_handle)) = 3"
  by (simp add: copied_handle_def two_subscriptions_def run_simps inv_defs)

text \<open>
  C9, amended.  In a well-formed registry whose active records each count one handle, disconnect
  all of them in any order \<open>ds\<close> and connect as many new callbacks.  After the
  disconnects the active list is empty and the free list is the reverse of \<open>ds\<close>
  before the old free list; after the connects the active list is \<open>ds\<close> again, as
  many records as callbacks and none twice, the free list is the old one and nothing was
  allocated.  In every well-formed registry \<open>connect\<close> takes the head of the free list
  when there is one and allocates only when the free list is empty.
\<close>

theorem reconnect_recycles_records:
  assumes "reg_inv s as fs"
    and "\<forall>a \<in> set as. handleLinks (heap s a) = 1"
    and "set ds = set as" and "distinct ds"
    and "length cbs = length as"
  shows "reg_inv (disconnect_all ds s) [] (rev ds @ fs) \<and>
         reg_inv (connect_all cbs (disconnect_all ds s)) ds fs \<and>
         length ds = length cbs \<and>
         allocated (connect_all cbs (disconnect_all ds s)) = allocated s \<and>
         (\<forall>t bs gs f. reg_inv t bs gs \<longrightarrow>
            fst (connect f t) = (case gs of [] \<Rightarrow> allocated t | g # _ \<Rightarrow> g) \<and>
            allocated (snd (connect f t)) = (if gs = [] then Suc (allocated t) else allocated t) \<and>
            reg_inv (snd (connect f t)) (fst (connect f t) # bs) (tl gs))"
proof -
  have d: "distinct as" using assms(1) by (simp add: inv_defs)
  have len: "length ds = length as"
    using assms(3,4) d by (metis distinct_card)
  have "filter (\<lambda>a. a \<notin> set ds) as = []" using assms(3) by (simp add: filter_empty_conv)
  with disconnect_all_reg_inv[OF assms(1) _ assms(4), of] assms(2,3)
  have r1: "reg_inv (disconnect_all ds s) [] (rev ds @ fs)"
    "allocated (disconnect_all ds s) = allocated s"
    by auto
  have "reg_inv (connect_all cbs (disconnect_all ds s)) (rev (rev ds) @ []) fs \<and>
         allocated (connect_all cbs (disconnect_all ds s)) = allocated (disconnect_all ds s)"
    using assms(5) len by (intro connect_all_recycles[OF r1(1)]) simp
  then have r2: "reg_inv (connect_all cbs (disconnect_all ds s)) ds fs"
    and r3: "allocated (connect_all cbs (disconnect_all ds s)) = allocated s"
    using r1(2) by simp_all
  have r4: "length ds = length cbs" using len assms(5) by simp
  have c: "\<forall>t bs gs f. reg_inv t bs gs \<longrightarrow>
            fst (connect f t) = (case gs of [] \<Rightarrow> allocated t | g # _ \<Rightarrow> g) \<and>
            allocated (snd (connect f t)) = (if gs = [] then Suc (allocated t) else allocated t) \<and>
            reg_inv (snd (connect f t)) (fst (connect f t) # bs) (tl gs)"
  proof (intro allI impI)
    fix t bs gs f
    assume t: "reg_inv t bs gs"
    have l: "lists_ok t bs gs" using t by (simp add: reg_inv_def)
    have "fst (connect f t) = new_record t gs" by (rule connect_fst[OF l])
    moreover have "allocated (snd (connect f t)) = (if gs = [] then Suc (allocated t) else allocated t)"
      by (rule connect_fields[OF l])
    moreover have "reg_inv (snd (connect f t)) (new_record t gs # bs) (tl gs)"
      by (rule connect_reg_inv[OF t])
    ultimately show "fst (connect f t) = (case gs of [] \<Rightarrow> allocated t | g # _ \<Rightarrow> g) \<and>
            allocated (snd (connect f t)) = (if gs = [] then Suc (allocated t) else allocated t) \<and>
            reg_inv (snd (connect f t)) (fst (connect f t) # bs) (tl gs)"
      by (simp add: new_record_def)
  qed
  show ?thesis by (intro conjI) (fact r1(1) r2 r3 r4 c)+
qed


theorem reconnect_recycles_records_witness:
  "reg_inv two_subscriptions [1, 0] [] \<and>
   handleLinks (heap two_subscriptions 1) = 1 \<and>
   handleLinks (heap two_subscriptions 0) = 1 \<and>
   reg_inv (disconnect_all [0, 1] two_subscriptions) [] [1, 0] \<and>
   reg_inv (connect_all [Some (Callback 5 []), None] (disconnect_all [0, 1] two_subscriptions))
     [0, 1] [] \<and>
   allocated (connect_all [Some (Callback 5 []), None] (disconnect_all [0, 1] two_subscriptions)) = 2"
proof -
  have r: "reg_inv two_subscriptions [1, 0] []"
    by (simp add: two_subscriptions_def run_simps inv_defs)
  have h: "\<forall>a \<in> set [1, 0]. handleLinks (heap two_subscriptions a) = 1"
    "allocated two_subscriptions = 2"
    by (simp_all add: two_subscriptions_def run_simps)
  have "set [0, 1] = set [1, 0::nat]" by auto
  from reconnect_recycles_records[OF r h(1) this, of "[Some (Callback 5 []), None]"]
  show ?thesis using r h by simp
qed

section \<open>No inactive record without a handle stays linked\<close>

text \<open>
  C8.  Start from a state that satisfies the invariant (a new event does).  Every
  sequence of connects, disconnects, handle destructions, clears and triggers that
  returns, the callbacks doing the same from within the triggers, ends in a state that
  satisfies the invariant again and is \<open>settled\<close>: each allocated record is on exactly one
  of the two lists, no record of the active list is inactive and counted by no handle, a
  record that is inactive and counted by no handle is on the free list, and nothing else
  is on the free list.  A sequence without triggers always returns.  A trigger, whether or
  not its walk ends, is in such a state after any number of iterations of its loop, and
  it returns exactly when some number of iterations brings the loop to its end.
\<close>

theorem inactive_unreferenced_record_reclaimed:
  assumes "state_inv s0"
  shows "(\<forall>ops s. run ops s0 = Some s \<longrightarrow> state_inv s \<and> settled s) \<and>
         (\<forall>ops. Trigger \<notin> set ops \<longrightarrow> (\<exists>s. run ops s0 = Some s)) \<and>
         (\<forall>n. \<exists>conn s. walk_steps n (mConnections s0) s0 = Some (conn, s) \<and>
                state_inv s \<and> settled s) \<and>
         (\<forall>s. trigger s0 = Some s \<longleftrightarrow>
                (\<exists>n. walk_steps n (mConnections s0) s0 = Some (None, s)))"
proof (intro conjI allI impI)
  fix ops s
  assume "run ops s0 = Some s"
  then have "state_inv s" using run_inv[OF assms] by blast
  then show "state_inv s" "settled s" by (simp_all add: state_inv_settled)
next
  fix ops
  assume "Trigger \<notin> set ops"
  then show "\<exists>s. run ops s0 = Some s" using run_total[OF assms] by blast
next
  fix n
  from walk_steps_total[OF assms, of n "mConnections s0"]
  show "\<exists>conn s. walk_steps n (mConnections s0) s0 = Some (conn, s) \<and> state_inv s \<and> settled s"
    using state_inv_settled by blast
next
  fix s
  show "trigger s0 = Some s \<longleftrightarrow> (\<exists>n. walk_steps n (mConnections s0) s0 = Some (None, s))"
    unfolding trigger_def
    using trigger_loop_walk_steps[of "mConnections s0" s0 s] walk_steps_trigger_loop by blast
qed

lemma busy_session_runs: "\<exists>s. run busy_session TEvent_ctor = Some s"
  by (simp add: busy_session_def run_simps)

lemma swap_next_runs:
  "run [Do (Connect 0 (Some (Callback 2 []))),
        Do (Connect 1 (Some (Callback 1 [Disconnect 0, Connect 2 (Some (Callback 3 []))])))]
     TEvent_ctor = Some swap_next"
  by (simp add: swap_next_def)

theorem inactive_unreferenced_record_reclaimed_witness:
  "state_inv TEvent_ctor \<and>
   (\<exists>s. run busy_session TEvent_ctor = Some s \<and> state_inv s \<and> settled s) \<and>
   state_inv swap_next \<and>
   (\<exists>conn s. walk_steps 2 (mConnections swap_next) swap_next = Some (conn, s) \<and>
      state_inv s \<and> settled s) \<and>
   map_option invoked (trigger swap_next) = Some [1, 3, 1] \<and>
   map_option (invoked \<circ> snd) (walk_steps 3 (mConnections swap_next) swap_next) = Some [1, 3, 1]"
proof -
  note t = inactive_unreferenced_record_reclaimed[OF TEvent_ctor_state_inv]
  from busy_session_runs obtain s where s: "run busy_session TEvent_ctor = Some s" ..
  have a: "\<exists>s. run busy_session TEvent_ctor = Some s \<and> state_inv s \<and> settled s"
    using t s by blast
  have b: "state_inv swap_next" using t swap_next_runs by blast
  have c: "\<exists>conn s. walk_steps 2 (mConnections swap_next) swap_next = Some (conn, s) \<and>
      state_inv s \<and> settled s"
    using inactive_unreferenced_record_reclaimed[OF b] by blast
  have d: "map_option invoked (trigger swap_next) = Some [1, 3, 1]"
    by (simp add: swap_next_def run_simps)
  have e: "map_option (invoked \<circ> snd) (walk_steps 3 (mConnections swap_next) swap_next) = Some [1, 3, 1]"
    by (simp add: swap_next_def run_simps numeral_3_eq_3)
  show ?thesis using TEvent_ctor_state_inv a b c d e by blast
qed

section \<open>Disconnecting from within a callback\<close>

text \<open>
  C3.  In a state that satisfies the invariant, with active list \<open>as\<close>, let every
  callback do nothing but disconnect handles of its own record or of records before it
  in the list.  The trigger returns; its trace is the labels of the records of \<open>as\<close>
  in list order, one entry for each record that had a callback when the trigger began,
  so no callback runs twice and none of the remaining ones is skipped; and the state it
  leaves satisfies the invariant again, its active list made of records of \<open>as\<close>.
\<close>

theorem trigger_survives_self_disconnect:
  assumes "reg_inv s as fs" and "hnd_inv s as" and "tidy s [] as"
  shows "\<exists>s' as' fs'. trigger s = Some s' \<and>
           invoked s' = invoked s @ labels s as \<and>
           reg_inv s' as' fs' \<and> hnd_inv s' as' \<and> set as' \<subseteq> set as"
proof -
  have p: "mConnections s = hdp as"
    using assms(1) by (auto simp: reg_inv_def lists_ok_def dest: seg_hdp_None)
  show ?thesis
    using trigger_loop_tidy[of s "[]" as fs "[]"] assms p by (simp add: trigger_def)
qed


theorem trigger_survives_self_disconnect_witness:
  "reg_inv self_disconnecting [2, 1, 0] [] \<and> hnd_inv self_disconnecting [2, 1, 0] \<and>
   tidy self_disconnecting [] [2, 1, 0] \<and>
   (\<exists>s' as' fs'. trigger self_disconnecting = Some s' \<and> invoked s' = [3, 2, 1] \<and>
      reg_inv s' as' fs' \<and> hnd_inv s' as' \<and> set as' \<subseteq> {2, 1, 0})"
proof -
  have l: "invoked self_disconnecting = []" "labels self_disconnecting [2, 1, 0] = [3, 2, 1]"
    by (simp_all add: self_disconnecting_def run_simps labels_def)
  show ?thesis
    using trigger_survives_self_disconnect[OF self_disconnecting_inv] self_disconnecting_inv l
    by simp
qed

end
